theory Spec2Isabelle
  imports Main
begin

section \<open>JavaScript values\<close>

text \<open>
  The manifest loader works on the values \<^verbatim>\<open>JSON.parse\<close> returns, and its tests call it on
  object literals of the same kind: null, booleans, numbers, strings, arrays and plain
  objects. \<open>JUndefined\<close> is what reading a missing property yields. Numbers are the
  integers; the module only tests a number for truthiness, so a fractional number
  behaves like any other non-zero one. An object is the list of its own properties in
  creation order (the order of the keys in the JSON text); a real object has distinct
  keys, and no theorem below depends on that.
\<close>

datatype jsval =
    JUndefined
  | JNull
  | JBool bool
  | JNum int
  | JStr string
  | JArr "jsval list"
  | JObj "(string \<times> jsval) list"

datatype error =
    TypeError
  | RangeError
  | ManifestNotFound string
  | InvalidJSON
  | MissingInstances
  | ReadFailed

text \<open>ToBoolean, as used by \<^verbatim>\<open>if (v)\<close>, \<^verbatim>\<open>!v\<close> and \<^verbatim>\<open>a || b\<close>.\<close>

fun truthy :: "jsval \<Rightarrow> bool" where
  "truthy JUndefined = False"
| "truthy JNull = False"
| "truthy (JBool b) = b"
| "truthy (JNum n) = (n \<noteq> 0)"
| "truthy (JStr s) = (s \<noteq> [])"
| "truthy (JArr xs) = True"
| "truthy (JObj ps) = True"

text \<open>\<^verbatim>\<open>a || b\<close>\<close>

definition js_or :: "jsval \<Rightarrow> jsval \<Rightarrow> jsval" where
  "js_or a b = (if truthy a then a else b)"

text \<open>\<^verbatim>\<open>Array.isArray(v)\<close> and \<^verbatim>\<open>typeof v === "string"\<close>\<close>

fun isArray :: "jsval \<Rightarrow> bool" where
  "isArray (JArr xs) = True"
| "isArray v = False"

fun is_string :: "jsval \<Rightarrow> bool" where
  "is_string (JStr s) = True"
| "is_string v = False"

fun nullish :: "jsval \<Rightarrow> bool" where
  "nullish JUndefined = True"
| "nullish JNull = True"
| "nullish v = False"

text \<open>
  A property read \<^verbatim>\<open>v.name\<close>, for the names this module reads (\<^verbatim>\<open>apps\<close>, \<^verbatim>\<open>files\<close>,
  \<^verbatim>\<open>datagens\<close>, \<^verbatim>\<open>datagen\<close>, \<^verbatim>\<open>source\<close>, \<^verbatim>\<open>destination\<close>, \<^verbatim>\<open>metadata\<close>, \<^verbatim>\<open>instances\<close>
  and the pattern key \<^verbatim>\<open>*\<close>). None of them is defined on a prototype, on an array or on a
  string, so the read finds an own property of a plain object or yields undefined.
  Reading a property of null or undefined throws a TypeError.
\<close>

fun own_prop :: "jsval \<Rightarrow> string \<Rightarrow> jsval" where
  "own_prop (JObj ps) name = (case map_of ps name of None \<Rightarrow> JUndefined | Some v \<Rightarrow> v)"
| "own_prop v name = JUndefined"

definition get_prop :: "jsval \<Rightarrow> string \<Rightarrow> error + jsval" where
  "get_prop v name = (if nullish v then Inl TypeError else Inr (own_prop v name))"

section \<open>Resolved instances\<close>

text \<open>
  \<^verbatim>\<open>{ source: app, destination }\<close>: the source is whatever element the declaration
  holds and the destination whatever value the declaration gives, so both are values.
\<close>

record resource_ref =
  source :: jsval
  destination :: jsval

text \<open>The object stored in the \<^verbatim>\<open>datagen\<close> slot; the slot itself is \<open>None\<close> for \<^verbatim>\<open>null\<close>.\<close>

record datagen_assignment =
  dg_source :: jsval
  dg_destination :: jsval

text \<open>\<^verbatim>\<open>{ apps: [], files: [], datagen: null }\<close>\<close>

record resolved_instance =
  apps :: "resource_ref list"
  files :: "resource_ref list"
  datagen :: "datagen_assignment option"

definition empty_instance :: resolved_instance where
  "empty_instance = \<lparr>apps = [], files = [], datagen = None\<rparr>"

text \<open>
  The \<^verbatim>\<open>Map\<close> called \<^verbatim>\<open>resolved\<close>: its entries in insertion order. \<^verbatim>\<open>has\<close>, \<^verbatim>\<open>set\<close> on
  a key that is not there, \<^verbatim>\<open>get\<close>, and the in-place mutation of the object \<^verbatim>\<open>get\<close>
  returned (written back under its key).
\<close>

type_synonym resolved_map = "(string \<times> resolved_instance) list"

definition map_has :: "resolved_map \<Rightarrow> string \<Rightarrow> bool" where
  "map_has resolved name = (name \<in> fst ` set resolved)"

definition map_set_new :: "resolved_map \<Rightarrow> string \<Rightarrow> resolved_instance \<Rightarrow> resolved_map" where
  "map_set_new resolved name v = resolved @ [(name, v)]"

definition map_get :: "resolved_map \<Rightarrow> string \<Rightarrow> resolved_instance option" where
  "map_get resolved name = map_of resolved name"

definition map_store :: "resolved_map \<Rightarrow> string \<Rightarrow> resolved_instance \<Rightarrow> resolved_map" where
  "map_store resolved name v = map (\<lambda>(k, old). if k = name then (k, v) else (k, old)) resolved"

section \<open>Normalising one resource block\<close>

text \<open>
  \<^verbatim>\<open>src.map((app) => ({ source: app, destination }))\<close>. The receiver comes from JSON, so
  only an array has a callable \<^verbatim>\<open>map\<close>; on any other value the call throws a TypeError.
\<close>

definition map_refs :: "jsval \<Rightarrow> jsval \<Rightarrow> error + resource_ref list" where
  "map_refs src dest =
     (case src of
        JArr xs \<Rightarrow> Inr (map (\<lambda>app. \<lparr>source = app, destination = dest\<rparr>) xs)
      | _ \<Rightarrow> Inl TypeError)"

text \<open>
  One object \<^verbatim>\<open>{ source: [...], destination }\<close> of the apps declaration (lines 114-122 and
  125-134; the same text at 188-196, 199-205, 264-272 and 275-284):
  \<^verbatim>\<open>if (g.source) { const destination = g.destination || "apps"; push(...g.source.map(..)) }\<close>
\<close>

definition app_group :: "jsval \<Rightarrow> error + resource_ref list" where
  "app_group g =
     (case get_prop g ''source'' of
        Inl e \<Rightarrow> Inl e
      | Inr s \<Rightarrow>
          if truthy s then
            (case get_prop g ''destination'' of
               Inl e \<Rightarrow> Inl e
             | Inr d \<Rightarrow> map_refs s (js_or d (JStr ''apps'')))
          else Inr [])"

text \<open>\<^verbatim>\<open>for (const appGroup of config.apps) { ... }\<close>\<close>

fun app_groups :: "jsval list \<Rightarrow> error + resource_ref list" where
  "app_groups [] = Inr []"
| "app_groups (g # gs) =
     (case app_group g of
        Inl e \<Rightarrow> Inl e
      | Inr refs \<Rightarrow>
          (case app_groups gs of
             Inl e \<Rightarrow> Inl e
           | Inr rest \<Rightarrow> Inr (refs @ rest)))"

text \<open>\<^verbatim>\<open>config.apps.length > 0 && typeof config.apps[0] === "string"\<close>\<close>

fun first_is_string :: "jsval list \<Rightarrow> bool" where
  "first_is_string [] = False"
| "first_is_string (x # xs) = is_string x"

text \<open>
  The apps part of a block (lines 97-135, repeated at 174-206 and 248-285): what the
  block appends to \<^verbatim>\<open>existing.apps\<close>.
\<close>

definition config_apps :: "jsval \<Rightarrow> error + resource_ref list" where
  "config_apps config =
     (case get_prop config ''apps'' of
        Inl e \<Rightarrow> Inl e
      | Inr a \<Rightarrow>
          if truthy a then
            (case a of
               JArr xs \<Rightarrow>
                 if first_is_string xs
                 then Inr (map (\<lambda>app. \<lparr>source = app, destination = JStr ''apps''\<rparr>) xs)
                 else app_groups xs
             | _ \<Rightarrow> app_group a)
          else Inr [])"

text \<open>
  The files part (lines 138-150, repeated at 209-223 and 288-303): what the block
  appends to \<^verbatim>\<open>existing.files\<close>.
\<close>

definition config_files :: "jsval \<Rightarrow> error + resource_ref list" where
  "config_files config =
     (case get_prop config ''files'' of
        Inl e \<Rightarrow> Inl e
      | Inr f \<Rightarrow>
          if truthy f then
            (case get_prop f ''destination'' of
               Inl e \<Rightarrow> Inl e
             | Inr d \<Rightarrow>
                 (let dest = js_or d (JStr ''system/local'') in
                  case get_prop f ''source'' of
                    Inl e \<Rightarrow> Inl e
                  | Inr s \<Rightarrow>
                      if isArray s then map_refs s dest
                      else if is_string s then Inr [\<lparr>source = s, destination = dest\<rparr>]
                      else Inr []))
          else Inr [])"

text \<open>
  The datagen part (lines 153-163, repeated at 226-238 and 306-316): \<open>Some d\<close> when the
  block assigns \<open>d\<close> to \<^verbatim>\<open>existing.datagen\<close>, \<open>None\<close> when it leaves the slot alone.
\<close>

definition config_datagen :: "jsval \<Rightarrow> error + datagen_assignment option" where
  "config_datagen config =
     (case get_prop config ''datagens'' of
        Inl e \<Rightarrow> Inl e
      | Inr dgs \<Rightarrow>
          (case (if truthy dgs then Inr dgs else get_prop config ''datagen'') of
             Inl e \<Rightarrow> Inl e
           | Inr datagenConfig \<Rightarrow>
               if truthy datagenConfig then
                 if isArray datagenConfig
                 then Inr (Some \<lparr>dg_source = datagenConfig, dg_destination = JNull\<rparr>)
                 else
                   (case get_prop datagenConfig ''source'' of
                      Inl e \<Rightarrow> Inl e
                    | Inr s \<Rightarrow>
                        if truthy s then
                          (case get_prop datagenConfig ''destination'' of
                             Inl e \<Rightarrow> Inl e
                           | Inr d \<Rightarrow> Inr (Some \<lparr>dg_source = s, dg_destination = d\<rparr>))
                        else Inr None)
               else Inr None))"

text \<open>
  The whole block applied to one instance: apps, then files, then datagen, as the
  source orders them. An exception in any part abandons the call. The pushes are taken
  here to accept any number of arguments; the section on the argument limit repeats the
  block for an engine that bounds them.
\<close>

definition apply_block :: "jsval \<Rightarrow> resolved_instance \<Rightarrow> error + resolved_instance" where
  "apply_block config existing =
     (case config_apps config of
        Inl e \<Rightarrow> Inl e
      | Inr new_apps \<Rightarrow>
          (case config_files config of
             Inl e \<Rightarrow> Inl e
           | Inr new_files \<Rightarrow>
               (case config_datagen config of
                  Inl e \<Rightarrow> Inl e
                | Inr assigned \<Rightarrow>
                    Inr \<lparr>apps = apps existing @ new_apps,
                         files = files existing @ new_files,
                         datagen = (case assigned of None \<Rightarrow> datagen existing
                                    | Some d \<Rightarrow> Some d)\<rparr>)))"

section \<open>resolveInstances\<close>

text \<open>
  The role-count spec: \<^verbatim>\<open>spec?.instances || {}\<close>. The spec may be missing, and so may
  its \<^verbatim>\<open>instances\<close>; the counts are integers. A role that is not an own key reads as
  undefined (or as a member of \<^verbatim>\<open>Object.prototype\<close>, which no \<^verbatim>\<open>i <= count\<close> accepts), and
  then the pattern is skipped.
\<close>

type_synonym role_counts = "(string \<times> int) list"

record manifest_spec =
  instances :: "role_counts option"

definition instance_counts :: "manifest_spec option \<Rightarrow> role_counts" where
  "instance_counts spec =
     (case spec of
        None \<Rightarrow> []
      | Some s \<Rightarrow> (case instances s of None \<Rightarrow> [] | Some counts \<Rightarrow> counts))"

text \<open>
  \<^verbatim>\<open>`${prefix}${i}`\<close> prints the loop counter in decimal (as JavaScript does for every
  integer below \<open>10^21\<close>).
\<close>

definition digit_char :: "nat \<Rightarrow> char" where
  "digit_char d = char_of (48 + d)"

fun string_of_nat :: "nat \<Rightarrow> string" where
  "string_of_nat n =
     (if n < 10 then [digit_char n]
      else string_of_nat (n div 10) @ [digit_char (n mod 10)])"

text \<open>
  \<^verbatim>\<open>Object.entries(instances)\<close> lists the own keys that are array indices (the canonical
  decimal strings below \<open>2^32 - 1\<close>) first, in ascending numeric order, and then the other
  keys in creation order.
\<close>

definition is_digit :: "char \<Rightarrow> bool" where
  "is_digit c = (48 \<le> (of_char c :: int) \<and> (of_char c :: int) \<le> 57)"

definition decimal_value :: "string \<Rightarrow> int" where
  "decimal_value s = foldl (\<lambda>n c. 10 * n + (of_char c - 48)) 0 s"

definition is_array_index :: "string \<Rightarrow> bool" where
  "is_array_index s =
     (s \<noteq> [] \<and> list_all is_digit s \<and> (s = ''0'' \<or> hd s \<noteq> CHR ''0'')
      \<and> decimal_value s < 4294967295)"

definition object_entries :: "(string \<times> jsval) list \<Rightarrow> (string \<times> jsval) list" where
  "object_entries ps =
     sort_key (\<lambda>(k, v). decimal_value k) (filter (\<lambda>(k, v). is_array_index k) ps)
     @ filter (\<lambda>(k, v). \<not> is_array_index k) ps"

text \<open>
  The body of the role loop and of the exact branch (lines 91-163 and 168-238): create
  the instance when the map does not have it, fetch it, apply the block to it.
\<close>

definition touch :: "string \<Rightarrow> jsval \<Rightarrow> resolved_map \<Rightarrow> error + resolved_map" where
  "touch instanceName config resolved =
     (let resolved1 =
        (if \<not> map_has resolved instanceName
         then map_set_new resolved instanceName empty_instance
         else resolved)
      in case map_get resolved1 instanceName of
           None \<Rightarrow> Inl TypeError
         | Some existing \<Rightarrow>
             (case apply_block config existing of
                Inl e \<Rightarrow> Inl e
              | Inr existing' \<Rightarrow> Inr (map_store resolved1 instanceName existing')))"

text \<open>\<^verbatim>\<open>for (let i = 1; i <= count; i++) { ... }\<close>, entered with \<open>i\<close>.\<close>

function role_loop :: "string \<Rightarrow> jsval \<Rightarrow> int \<Rightarrow> nat \<Rightarrow> resolved_map \<Rightarrow> error + resolved_map" where
  "role_loop prefix config count i resolved =
     (if int i \<le> count then
        (case touch (prefix @ string_of_nat i) config resolved of
           Inl e \<Rightarrow> Inl e
         | Inr resolved' \<Rightarrow> role_loop prefix config count (Suc i) resolved')
      else Inr resolved)"
  by pat_completeness auto
termination
  by (relation "measure (\<lambda>(prefix, config, count, i, resolved). nat (count + 1 - int i))") auto

text \<open>
  One iteration of the first pass (lines 77-240). \<^verbatim>\<open>pattern.replace("*", "")\<close> removes the
  first star only.
\<close>

definition pattern_step :: "role_counts \<Rightarrow> string \<times> jsval \<Rightarrow> resolved_map \<Rightarrow> error + resolved_map" where
  "pattern_step instanceCounts entry resolved =
     (case entry of (pattern, config) \<Rightarrow>
        if pattern = ''*'' then Inr resolved
        else if CHR ''*'' \<in> set pattern then
          (let prefix = remove1 CHR ''*'' pattern in
           case map_of instanceCounts prefix of
             None \<Rightarrow> Inr resolved
           | Some count \<Rightarrow>
               if count \<noteq> 0 then role_loop prefix config count 1 resolved
               else Inr resolved)
        else touch pattern config resolved)"

fun first_pass :: "role_counts \<Rightarrow> (string \<times> jsval) list \<Rightarrow> resolved_map \<Rightarrow> error + resolved_map" where
  "first_pass instanceCounts [] resolved = Inr resolved"
| "first_pass instanceCounts (entry # entries) resolved =
     (case pattern_step instanceCounts entry resolved of
        Inl e \<Rightarrow> Inl e
      | Inr resolved' \<Rightarrow> first_pass instanceCounts entries resolved')"

text \<open>
  The second pass (lines 246-317): the global block applied to every entry of the map,
  in insertion order.
\<close>

fun second_pass :: "jsval \<Rightarrow> resolved_map \<Rightarrow> error + resolved_map" where
  "second_pass globalConfig [] = Inr []"
| "second_pass globalConfig ((instanceName, existing) # rest) =
     (case apply_block globalConfig existing of
        Inl e \<Rightarrow> Inl e
      | Inr existing' \<Rightarrow>
          (case second_pass globalConfig rest of
             Inl e \<Rightarrow> Inl e
           | Inr rest' \<Rightarrow> Inr ((instanceName, existing') # rest')))"

text \<open>
  \<open>resolveInstances\<close> takes the pattern map, an object, as its list of own properties.
\<close>

definition resolveInstances ::
  "(string \<times> jsval) list \<Rightarrow> manifest_spec option \<Rightarrow> error + resolved_map" where
  "resolveInstances patterns spec =
     (case first_pass (instance_counts spec) (object_entries patterns) [] of
        Inl e \<Rightarrow> Inl e
      | Inr resolved \<Rightarrow>
          (let globalConfig = own_prop (JObj patterns) ''*'' in
           if truthy globalConfig then second_pass globalConfig resolved
           else Inr resolved))"

section \<open>resolveInstances under an argument limit\<close>

text \<open>
  \<^verbatim>\<open>existing.apps.push(...refs)\<close> and \<^verbatim>\<open>existing.files.push(...refs)\<close> pass every element of
  \<open>refs\<close> as one argument of a single call. An engine accepts only so many arguments in a
  call, a number that depends on the engine and its stack, and throws a RangeError beyond
  it. The definitions above are the resolver on an engine without such a limit; the ones
  below repeat them for an engine that accepts at most \<open>limit\<close> arguments. A push of a
  single object, as for a scalar files source, is not a spread and cannot exceed it.
\<close>

definition push_spread :: "nat \<Rightarrow> resource_ref list \<Rightarrow> error + resource_ref list" where
  "push_spread limit refs = (if limit < length refs then Inl RangeError else Inr refs)"

text \<open>\<^verbatim>\<open>existing.apps.push(...g.source.map(..))\<close>: the map, then the push of its result.\<close>

definition app_group_within :: "nat \<Rightarrow> jsval \<Rightarrow> error + resource_ref list" where
  "app_group_within limit g =
     (case get_prop g ''source'' of
        Inl e \<Rightarrow> Inl e
      | Inr s \<Rightarrow>
          if truthy s then
            (case get_prop g ''destination'' of
               Inl e \<Rightarrow> Inl e
             | Inr d \<Rightarrow>
                 (case map_refs s (js_or d (JStr ''apps'')) of
                    Inl e \<Rightarrow> Inl e
                  | Inr refs \<Rightarrow> push_spread limit refs))
          else Inr [])"

fun app_groups_within :: "nat \<Rightarrow> jsval list \<Rightarrow> error + resource_ref list" where
  "app_groups_within limit [] = Inr []"
| "app_groups_within limit (g # gs) =
     (case app_group_within limit g of
        Inl e \<Rightarrow> Inl e
      | Inr refs \<Rightarrow>
          (case app_groups_within limit gs of
             Inl e \<Rightarrow> Inl e
           | Inr rest \<Rightarrow> Inr (refs @ rest)))"

definition config_apps_within :: "nat \<Rightarrow> jsval \<Rightarrow> error + resource_ref list" where
  "config_apps_within limit config =
     (case get_prop config ''apps'' of
        Inl e \<Rightarrow> Inl e
      | Inr a \<Rightarrow>
          if truthy a then
            (case a of
               JArr xs \<Rightarrow>
                 if first_is_string xs
                 then push_spread limit
                        (map (\<lambda>app. \<lparr>source = app, destination = JStr ''apps''\<rparr>) xs)
                 else app_groups_within limit xs
             | _ \<Rightarrow> app_group_within limit a)
          else Inr [])"

definition config_files_within :: "nat \<Rightarrow> jsval \<Rightarrow> error + resource_ref list" where
  "config_files_within limit config =
     (case get_prop config ''files'' of
        Inl e \<Rightarrow> Inl e
      | Inr f \<Rightarrow>
          if truthy f then
            (case get_prop f ''destination'' of
               Inl e \<Rightarrow> Inl e
             | Inr d \<Rightarrow>
                 (let dest = js_or d (JStr ''system/local'') in
                  case get_prop f ''source'' of
                    Inl e \<Rightarrow> Inl e
                  | Inr s \<Rightarrow>
                      if isArray s then
                        (case map_refs s dest of
                           Inl e \<Rightarrow> Inl e
                         | Inr refs \<Rightarrow> push_spread limit refs)
                      else if is_string s then Inr [\<lparr>source = s, destination = dest\<rparr>]
                      else Inr []))
          else Inr [])"

definition apply_block_within ::
  "nat \<Rightarrow> jsval \<Rightarrow> resolved_instance \<Rightarrow> error + resolved_instance" where
  "apply_block_within limit config existing =
     (case config_apps_within limit config of
        Inl e \<Rightarrow> Inl e
      | Inr new_apps \<Rightarrow>
          (case config_files_within limit config of
             Inl e \<Rightarrow> Inl e
           | Inr new_files \<Rightarrow>
               (case config_datagen config of
                  Inl e \<Rightarrow> Inl e
                | Inr assigned \<Rightarrow>
                    Inr \<lparr>apps = apps existing @ new_apps,
                         files = files existing @ new_files,
                         datagen = (case assigned of None \<Rightarrow> datagen existing
                                    | Some d \<Rightarrow> Some d)\<rparr>)))"

definition touch_within ::
  "nat \<Rightarrow> string \<Rightarrow> jsval \<Rightarrow> resolved_map \<Rightarrow> error + resolved_map" where
  "touch_within limit instanceName config resolved =
     (let resolved1 =
        (if \<not> map_has resolved instanceName
         then map_set_new resolved instanceName empty_instance
         else resolved)
      in case map_get resolved1 instanceName of
           None \<Rightarrow> Inl TypeError
         | Some existing \<Rightarrow>
             (case apply_block_within limit config existing of
                Inl e \<Rightarrow> Inl e
              | Inr existing' \<Rightarrow> Inr (map_store resolved1 instanceName existing')))"

function role_loop_within ::
  "nat \<Rightarrow> string \<Rightarrow> jsval \<Rightarrow> int \<Rightarrow> nat \<Rightarrow> resolved_map \<Rightarrow> error + resolved_map" where
  "role_loop_within limit prefix config count i resolved =
     (if int i \<le> count then
        (case touch_within limit (prefix @ string_of_nat i) config resolved of
           Inl e \<Rightarrow> Inl e
         | Inr resolved' \<Rightarrow> role_loop_within limit prefix config count (Suc i) resolved')
      else Inr resolved)"
  by pat_completeness auto
termination
  by (relation "measure (\<lambda>(limit, prefix, config, count, i, resolved). nat (count + 1 - int i))")
     auto

definition pattern_step_within ::
  "nat \<Rightarrow> role_counts \<Rightarrow> string \<times> jsval \<Rightarrow> resolved_map \<Rightarrow> error + resolved_map" where
  "pattern_step_within limit instanceCounts entry resolved =
     (case entry of (pattern, config) \<Rightarrow>
        if pattern = ''*'' then Inr resolved
        else if CHR ''*'' \<in> set pattern then
          (let prefix = remove1 CHR ''*'' pattern in
           case map_of instanceCounts prefix of
             None \<Rightarrow> Inr resolved
           | Some count \<Rightarrow>
               if count \<noteq> 0 then role_loop_within limit prefix config count 1 resolved
               else Inr resolved)
        else touch_within limit pattern config resolved)"

fun first_pass_within ::
  "nat \<Rightarrow> role_counts \<Rightarrow> (string \<times> jsval) list \<Rightarrow> resolved_map \<Rightarrow> error + resolved_map" where
  "first_pass_within limit instanceCounts [] resolved = Inr resolved"
| "first_pass_within limit instanceCounts (entry # entries) resolved =
     (case pattern_step_within limit instanceCounts entry resolved of
        Inl e \<Rightarrow> Inl e
      | Inr resolved' \<Rightarrow> first_pass_within limit instanceCounts entries resolved')"

fun second_pass_within :: "nat \<Rightarrow> jsval \<Rightarrow> resolved_map \<Rightarrow> error + resolved_map" where
  "second_pass_within limit globalConfig [] = Inr []"
| "second_pass_within limit globalConfig ((instanceName, existing) # rest) =
     (case apply_block_within limit globalConfig existing of
        Inl e \<Rightarrow> Inl e
      | Inr existing' \<Rightarrow>
          (case second_pass_within limit globalConfig rest of
             Inl e \<Rightarrow> Inl e
           | Inr rest' \<Rightarrow> Inr ((instanceName, existing') # rest')))"

definition resolveInstances_within ::
  "nat \<Rightarrow> (string \<times> jsval) list \<Rightarrow> manifest_spec option \<Rightarrow> error + resolved_map" where
  "resolveInstances_within limit patterns spec =
     (case first_pass_within limit (instance_counts spec) (object_entries patterns) [] of
        Inl e \<Rightarrow> Inl e
      | Inr resolved \<Rightarrow>
          (let globalConfig = own_prop (JObj patterns) ''*'' in
           if truthy globalConfig then second_pass_within limit globalConfig resolved
           else Inr resolved))"

section \<open>loadManifest\<close>

text \<open>
  What \<open>loadManifest\<close> asks of Node: \<^verbatim>\<open>path.join\<close>, the file system behind
  \<^verbatim>\<open>fs.existsSync\<close> and \<^verbatim>\<open>fs.readFileSync\<close>, and \<^verbatim>\<open>JSON.parse\<close>, which returns a value or
  throws a SyntaxError (\<open>None\<close>). A path that exists names a file with its text or
  something \<^verbatim>\<open>readFileSync\<close> cannot read, such as a directory.
\<close>

datatype fs_node = File string | Unreadable

record host =
  path_join :: "string \<Rightarrow> string \<Rightarrow> string"
  fs_lookup :: "string \<Rightarrow> fs_node option"
  JSON_parse :: "string \<Rightarrow> jsval option"

text \<open>\<^verbatim>\<open>content.split("\n")\<close> and \<^verbatim>\<open>.join("\n")\<close>\<close>

fun split_lines :: "string \<Rightarrow> string list" where
  "split_lines [] = [[]]"
| "split_lines (c # cs) =
     (if c = CHR 0x0A then [] # split_lines cs
      else (case split_lines cs of
              [] \<Rightarrow> [[c]]
            | l # ls \<Rightarrow> (c # l) # ls))"

fun join_lines :: "string list \<Rightarrow> string" where
  "join_lines [] = []"
| "join_lines [l] = l"
| "join_lines (l # ls) = l @ CHR 0x0A # join_lines ls"

text \<open>\<^verbatim>\<open>line.indexOf("//")\<close>, \<open>None\<close> for \<^verbatim>\<open>-1\<close>\<close>

fun index_of_slashes :: "string \<Rightarrow> nat option" where
  "index_of_slashes (a # b # cs) =
     (if a = CHR ''/'' \<and> b = CHR ''/'' then Some 0
      else map_option Suc (index_of_slashes (b # cs)))"
| "index_of_slashes cs = None"

text \<open>
  The function mapped over the lines (lines 27-40): cut the line at the first
  \<^verbatim>\<open>//\<close> when an even number of double quotes stands before it.
\<close>

definition strip_comment :: "string \<Rightarrow> string" where
  "strip_comment line =
     (case index_of_slashes line of
        None \<Rightarrow> line
      | Some commentIndex \<Rightarrow>
          (let beforeComment = take commentIndex line;
               quoteCount = length (filter (\<lambda>c. c = CHR 0x22) beforeComment)
           in if quoteCount mod 2 = 0 then beforeComment else line))"

text \<open>
  \<^verbatim>\<open>.replace(/,(\s*[}\]])/g, "$1")\<close>: a comma followed by white space and a closing
  bracket is dropped, and the scan goes on after the bracket. The white space of \<^verbatim>\<open>\s\<close>
  within the character range of \<open>string\<close>.
\<close>

definition is_space :: "char \<Rightarrow> bool" where
  "is_space c = (c \<in> set [CHR 0x20, CHR 0x09, CHR 0x0A, CHR 0x0B, CHR 0x0C, CHR 0x0D, CHR 0xA0])"

function remove_trailing_commas :: "string \<Rightarrow> string" where
  "remove_trailing_commas [] = []"
| "remove_trailing_commas (c # cs) =
     (if c = CHR '','' then
        (case dropWhile is_space cs of
           [] \<Rightarrow> c # remove_trailing_commas cs
         | b # rest \<Rightarrow>
             if b = CHR ''}'' \<or> b = CHR '']''
             then takeWhile is_space cs @ b # remove_trailing_commas rest
             else c # remove_trailing_commas cs)
      else c # remove_trailing_commas cs)"
  by pat_completeness auto
termination
proof (relation "measure length")
  show "wf (measure length)" by simp
next
  fix c :: char and cs b rest
  assume "dropWhile is_space cs = b # rest"
  then have "length (b # rest) \<le> length cs"
    using length_dropWhile_le [of is_space cs] by simp
  then show "(rest, c # cs) \<in> measure length" by simp
qed simp_all

definition clean_content :: "string \<Rightarrow> string" where
  "clean_content content =
     remove_trailing_commas (join_lines (map strip_comment (split_lines content)))"

text \<open>
  \<open>loadManifest\<close> (lines 11-64). The logger calls do nothing but read
  \<^verbatim>\<open>manifest.metadata\<close>, which throws on a document that parses to \<^verbatim>\<open>null\<close>. The
  \<^verbatim>\<open>catch\<close> turns a SyntaxError into the invalid-JSON error and throws everything else
  again unchanged.
\<close>

definition loadManifest :: "host \<Rightarrow> string \<Rightarrow> error + jsval" where
  "loadManifest h courseDir =
     (let manifestPath = path_join h courseDir ''manifest.json'' in
      case fs_lookup h manifestPath of
        None \<Rightarrow> Inl (ManifestNotFound courseDir)
      | Some Unreadable \<Rightarrow> Inl ReadFailed
      | Some (File content) \<Rightarrow>
          (case JSON_parse h (clean_content content) of
             None \<Rightarrow> Inl InvalidJSON
           | Some manifest \<Rightarrow>
               (case get_prop manifest ''metadata'' of
                  Inl e \<Rightarrow> Inl e
                | Inr metadata \<Rightarrow>
                    (case get_prop manifest ''instances'' of
                       Inl e \<Rightarrow> Inl e
                     | Inr i \<Rightarrow>
                         if \<not> truthy i then Inl MissingInstances
                         else Inr manifest))))"

section \<open>Vocabulary of the properties\<close>

text \<open>
  The identities a pattern key selects, as the first pass computes them: none for the
  global wildcard, \<open>role1 .. roleN\<close> for a key with a star, the key itself otherwise.
\<close>

definition role_names :: "string \<Rightarrow> int \<Rightarrow> string list" where
  "role_names role count = map (\<lambda>i. role @ string_of_nat i) [1..<Suc (nat count)]"

definition pattern_ids :: "role_counts \<Rightarrow> string \<Rightarrow> string list" where
  "pattern_ids counts pattern =
     (if pattern = ''*'' then []
      else if CHR ''*'' \<in> set pattern then
        (case map_of counts (remove1 CHR ''*'' pattern) of
           None \<Rightarrow> []
         | Some count \<Rightarrow> role_names (remove1 CHR ''*'' pattern) count)
      else [pattern])"

text \<open>The blocks of the entries that select an identity, in the order of the entries.\<close>

definition matching_blocks :: "role_counts \<Rightarrow> (string \<times> jsval) list \<Rightarrow> string \<Rightarrow> jsval list" where
  "matching_blocks counts entries name =
     map snd (filter (\<lambda>(pattern, config). name \<in> set (pattern_ids counts pattern)) entries)"

text \<open>The normalised entries of a block; a block that throws has none.\<close>

definition apps_of :: "jsval \<Rightarrow> resource_ref list" where
  "apps_of config = (case config_apps config of Inl e \<Rightarrow> [] | Inr refs \<Rightarrow> refs)"

definition files_of :: "jsval \<Rightarrow> resource_ref list" where
  "files_of config = (case config_files config of Inl e \<Rightarrow> [] | Inr refs \<Rightarrow> refs)"

definition datagen_of :: "jsval \<Rightarrow> datagen_assignment option" where
  "datagen_of config = (case config_datagen config of Inl e \<Rightarrow> None | Inr assigned \<Rightarrow> assigned)"


text \<open>What a block that does not throw does to an instance.\<close>

definition block_effect :: "jsval \<Rightarrow> resolved_instance \<Rightarrow> resolved_instance" where
  "block_effect config existing =
     \<lparr>apps = apps existing @ apps_of config,
      files = files existing @ files_of config,
      datagen = (case datagen_of config of None \<Rightarrow> datagen existing | Some d \<Rightarrow> Some d)\<rparr>"

text \<open>The instance the map holds under a name, the fresh one when it holds none.\<close>

definition view :: "resolved_map \<Rightarrow> string \<Rightarrow> resolved_instance" where
  "view resolved name = (case map_of resolved name of None \<Rightarrow> empty_instance | Some v \<Rightarrow> v)"

text \<open>
  The shapes on which a block does not throw: the block is not null or undefined, and
  where its apps declaration is an object, or an array that does not start with a
  string, every object in it is not null or undefined and has a source that is falsy or
  an array.
\<close>

definition group_well_shaped :: "jsval \<Rightarrow> bool" where
  "group_well_shaped g =
     (\<not> nullish g \<and> (\<not> truthy (own_prop g ''source'') \<or> isArray (own_prop g ''source'')))"

definition apps_well_shaped :: "jsval \<Rightarrow> bool" where
  "apps_well_shaped a =
     (\<not> truthy a \<or>
      (case a of
         JArr xs \<Rightarrow> first_is_string xs \<or> list_all group_well_shaped xs
       | _ \<Rightarrow> group_well_shaped a))"

definition block_well_shaped :: "jsval \<Rightarrow> bool" where
  "block_well_shaped config = (\<not> nullish config \<and> apps_well_shaped (own_prop config ''apps''))"

text \<open>
  The datagen declaration of a block, \<^verbatim>\<open>config.datagens || config.datagen\<close>, and the shapes
  the code recognises in it: an array, or a value with a truthy \<^verbatim>\<open>source\<close>.
\<close>

definition datagen_declaration :: "jsval \<Rightarrow> jsval" where
  "datagen_declaration config = js_or (own_prop config ''datagens'') (own_prop config ''datagen'')"

definition datagen_recognised :: "jsval \<Rightarrow> bool" where
  "datagen_recognised d = (truthy d \<and> (isArray d \<or> truthy (own_prop d ''source'')))"

text \<open>
  What a recognised datagen declaration assigns to the slot: an array becomes the source,
  with \<^verbatim>\<open>null\<close> as destination; another value gives its \<^verbatim>\<open>source\<close> and its \<^verbatim>\<open>destination\<close>.
  \<open>None\<close> when the declaration is not recognised.
\<close>

definition declared_datagen :: "jsval \<Rightarrow> datagen_assignment option" where
  "declared_datagen config =
     (if datagen_recognised (datagen_declaration config) then
        Some (if isArray (datagen_declaration config)
              then \<lparr>dg_source = datagen_declaration config, dg_destination = JNull\<rparr>
              else \<lparr>dg_source = own_prop (datagen_declaration config) ''source'',
                    dg_destination = own_prop (datagen_declaration config) ''destination''\<rparr>)
      else None)"

text \<open>
  The apps and files declarations that the code reads without finding anything to append
  and without throwing: a falsy declaration; an apps value that is not an array and has no
  truthy \<^verbatim>\<open>source\<close>; an apps array that does not start with a string and whose elements,
  none of them null or undefined, have no truthy \<^verbatim>\<open>source\<close>; a files value whose \<^verbatim>\<open>source\<close>
  is neither an array nor a string.
\<close>

definition apps_unrecognised :: "jsval \<Rightarrow> bool" where
  "apps_unrecognised a =
     (\<not> truthy a \<or>
      (case a of
         JArr xs \<Rightarrow>
           \<not> first_is_string xs
           \<and> list_all (\<lambda>g. \<not> nullish g \<and> \<not> truthy (own_prop g ''source'')) xs
       | _ \<Rightarrow> \<not> truthy (own_prop a ''source'')))"

definition files_unrecognised :: "jsval \<Rightarrow> bool" where
  "files_unrecognised f =
     (\<not> truthy f \<or> (\<not> isArray (own_prop f ''source'') \<and> \<not> is_string (own_prop f ''source'')))"

text \<open>
  The blocks none of whose spread arrays exceeds the argument limit: the apps array that
  starts with a string, the \<^verbatim>\<open>source\<close> array of each apps object, and the \<^verbatim>\<open>source\<close> array
  of the files declaration.
\<close>

definition source_within :: "nat \<Rightarrow> jsval \<Rightarrow> bool" where
  "source_within limit g =
     (case own_prop g ''source'' of JArr ys \<Rightarrow> length ys \<le> limit | _ \<Rightarrow> True)"

definition apps_within :: "nat \<Rightarrow> jsval \<Rightarrow> bool" where
  "apps_within limit a =
     (case a of
        JArr xs \<Rightarrow>
          if first_is_string xs then length xs \<le> limit
          else list_all (source_within limit) xs
      | _ \<Rightarrow> source_within limit a)"

definition block_within :: "nat \<Rightarrow> jsval \<Rightarrow> bool" where
  "block_within limit config =
     (apps_within limit (own_prop config ''apps'')
      \<and> source_within limit (own_prop config ''files''))"

text \<open>
  Two entries of a pattern map that the resolver cannot tell apart: the same key, and
  blocks that act alike on every instance and are alike truthy.
\<close>

definition same_entry :: "string \<times> jsval \<Rightarrow> string \<times> jsval \<Rightarrow> bool" where
  "same_entry a b = (fst a = fst b \<and> apply_block (snd a) = apply_block (snd b)
                      \<and> truthy (snd a) = truthy (snd b))"

text \<open>
  A sample host for \<open>loadManifest\<close>: the directory \<^verbatim>\<open>course\<close> holds a manifest with a
  comment and a trailing comma, the directory \<^verbatim>\<open>broken\<close> a manifest whose whole text is
  \<^verbatim>\<open>null\<close>, and \<^verbatim>\<open>JSON.parse\<close> is given on the two cleaned texts.
\<close>

definition sample_manifest_text :: string where
  "sample_manifest_text =
     ''{'' @ [CHR 0x22] @ ''instances'' @ [CHR 0x22] @ '': {}, } // the pattern map''"

definition sample_clean_text :: string where
  "sample_clean_text = ''{'' @ [CHR 0x22] @ ''instances'' @ [CHR 0x22] @ '': {} } ''"

definition sample_host :: host where
  "sample_host =
     \<lparr>path_join = (\<lambda>dir file. dir @ ''/'' @ file),
      fs_lookup = (\<lambda>p. if p = ''course/manifest.json'' then Some (File sample_manifest_text)
                       else if p = ''broken/manifest.json'' then Some (File ''null'')
                       else None),
      JSON_parse = (\<lambda>s. if s = sample_clean_text then Some (JObj [(''instances'', JObj [])])
                        else if s = ''null'' then Some JNull
                        else None)\<rparr>"

section \<open>Lemmas\<close>

declare string_of_nat.simps [simp del]
declare role_loop.simps [simp del]

subsection \<open>Decimal names are distinct\<close>

lemma digit_char_inj: "a < 10 \<Longrightarrow> b < 10 \<Longrightarrow> digit_char a = digit_char b \<Longrightarrow> a = b"
proof -
  assume a: "a < 10" and b: "b < 10" and e: "digit_char a = digit_char b"
  have "(of_char (digit_char a) :: nat) = of_char (digit_char b)" using e by simp
  then have "(48 + a) mod 256 = (48 + b) mod 256"
    by (simp add: digit_char_def)
  with a b show "a = b" by simp
qed

lemma string_of_nat_nonempty: "string_of_nat n \<noteq> []"
  by (subst string_of_nat.simps) simp

lemma string_of_nat_inj: "string_of_nat m = string_of_nat n \<Longrightarrow> m = n"
proof (induction m arbitrary: n rule: string_of_nat.induct)
  case (1 m)
  show ?case
  proof (cases "m < 10")
    case True
    then have sm: "string_of_nat m = [digit_char m]"
      by (subst string_of_nat.simps) simp
    show ?thesis
    proof (cases "n < 10")
      case True
      then have "string_of_nat n = [digit_char n]"
        by (subst string_of_nat.simps) simp
      with sm "1.prems" have "digit_char m = digit_char n" by simp
      with \<open>m < 10\<close> True show ?thesis by (rule digit_char_inj)
    next
      case False
      then have "string_of_nat n = string_of_nat (n div 10) @ [digit_char (n mod 10)]"
        by (subst string_of_nat.simps) simp
      with sm "1.prems" have "string_of_nat (n div 10) = []" by simp
      then show ?thesis using string_of_nat_nonempty by blast
    qed
  next
    case False
    then have sm: "string_of_nat m = string_of_nat (m div 10) @ [digit_char (m mod 10)]"
      by (subst string_of_nat.simps) simp
    show ?thesis
    proof (cases "n < 10")
      case True
      then have "string_of_nat n = [digit_char n]"
        by (subst string_of_nat.simps) simp
      with sm "1.prems" have "string_of_nat (m div 10) = []" by simp
      then show ?thesis using string_of_nat_nonempty by blast
    next
      case nf: False
      then have sn: "string_of_nat n = string_of_nat (n div 10) @ [digit_char (n mod 10)]"
        by (subst string_of_nat.simps) simp
      from sm sn "1.prems" have e1: "string_of_nat (m div 10) = string_of_nat (n div 10)"
        and e2: "digit_char (m mod 10) = digit_char (n mod 10)" by simp_all
      from "1.IH" [OF False e1] have d: "m div 10 = n div 10" .
      have "m mod 10 = n mod 10" using e2 by (intro digit_char_inj) simp_all
      with d show ?thesis by (metis div_mult_mod_eq)
    qed
  qed
qed

subsection \<open>When a block throws\<close>

text \<open>
  Each part of a block throws a TypeError or yields its entries; the apps part is the
  only one that can throw on a block that is not null or undefined.
\<close>

lemma get_prop_simps [simp]:
  "nullish v \<Longrightarrow> get_prop v name = Inl TypeError"
  "\<not> nullish v \<Longrightarrow> get_prop v name = Inr (own_prop v name)"
  by (simp_all add: get_prop_def)

lemma truthy_not_nullish: "truthy v \<Longrightarrow> \<not> nullish v"
  by (cases v) simp_all

lemma map_refs_ok: "(\<exists>refs. map_refs s d = Inr refs) \<longleftrightarrow> isArray s"
  by (cases s) (simp_all add: map_refs_def)

lemma map_refs_err: "\<not> isArray s \<Longrightarrow> map_refs s d = Inl TypeError"
  by (cases s) (simp_all add: map_refs_def)

lemma app_group_ok: "(\<exists>refs. app_group g = Inr refs) \<longleftrightarrow> group_well_shaped g"
  by (cases "nullish g") (auto simp: app_group_def group_well_shaped_def map_refs_ok map_refs_err)

lemma app_group_err: "\<not> group_well_shaped g \<Longrightarrow> app_group g = Inl TypeError"
  by (cases "nullish g") (auto simp: app_group_def group_well_shaped_def map_refs_err)

lemma app_groups_ok: "(\<exists>refs. app_groups gs = Inr refs) \<longleftrightarrow> list_all group_well_shaped gs"
proof (induction gs)
  case Nil
  show ?case by simp
next
  case (Cons g gs)
  show ?case
  proof (cases "group_well_shaped g")
    case True
    then obtain refs where "app_group g = Inr refs" using app_group_ok by blast
    with True Cons show ?thesis by (auto split: sum.splits)
  next
    case False
    then show ?thesis by (simp add: app_group_err)
  qed
qed

lemma app_groups_err: "\<not> list_all group_well_shaped gs \<Longrightarrow> app_groups gs = Inl TypeError"
proof (induction gs)
  case Nil
  then show ?case by simp
next
  case (Cons g gs)
  show ?case
  proof (cases "group_well_shaped g")
    case True
    then obtain refs where "app_group g = Inr refs" using app_group_ok by blast
    with True Cons show ?thesis by (auto split: sum.splits)
  next
    case False
    then show ?thesis by (simp add: app_group_err)
  qed
qed

lemma config_apps_ok: "(\<exists>refs. config_apps c = Inr refs) \<longleftrightarrow> block_well_shaped c"
proof (cases "nullish c")
  case True
  then show ?thesis by (simp add: config_apps_def block_well_shaped_def)
next
  case False
  show ?thesis
  proof (cases "truthy (own_prop c ''apps'')")
    case t: True
    show ?thesis
    proof (cases "own_prop c ''apps''")
      case (JArr xs)
      with False show ?thesis
        by (simp add: config_apps_def block_well_shaped_def apps_well_shaped_def app_groups_ok)
    qed (use False t in \<open>simp_all add: config_apps_def block_well_shaped_def apps_well_shaped_def app_group_ok\<close>)
  next
    case f: False
    with False show ?thesis
      by (simp add: config_apps_def block_well_shaped_def apps_well_shaped_def)
  qed
qed

lemma config_apps_err: "\<not> block_well_shaped c \<Longrightarrow> config_apps c = Inl TypeError"
proof (cases "nullish c")
  case True
  then show ?thesis by (simp add: config_apps_def)
next
  case False
  assume nb: "\<not> block_well_shaped c"
  with False have t: "truthy (own_prop c ''apps'')"
    by (auto simp: block_well_shaped_def apps_well_shaped_def)
  show ?thesis
  proof (cases "own_prop c ''apps''")
    case (JArr xs)
    with False nb show ?thesis
      by (simp add: config_apps_def block_well_shaped_def apps_well_shaped_def app_groups_err)
  qed (use False t nb in \<open>simp_all add: config_apps_def block_well_shaped_def apps_well_shaped_def app_group_err\<close>)
qed

lemma config_files_ok: "\<not> nullish c \<Longrightarrow> \<exists>refs. config_files c = Inr refs"
  by (auto simp: config_files_def Let_def truthy_not_nullish map_refs_ok)

lemma config_datagen_ok: "\<not> nullish c \<Longrightarrow> \<exists>d. config_datagen c = Inr d"
  by (auto simp: config_datagen_def truthy_not_nullish)

lemma block_well_shaped_not_nullish: "block_well_shaped c \<Longrightarrow> \<not> nullish c"
  by (simp add: block_well_shaped_def)

lemma apply_block_eq:
  "apply_block c e = (if block_well_shaped c then Inr (block_effect c e) else Inl TypeError)"
proof (cases "block_well_shaped c")
  case True
  then obtain as where a: "config_apps c = Inr as" using config_apps_ok by blast
  from True have nn: "\<not> nullish c" by (rule block_well_shaped_not_nullish)
  obtain fs where f: "config_files c = Inr fs" using config_files_ok [OF nn] by blast
  obtain d where d: "config_datagen c = Inr d" using config_datagen_ok [OF nn] by blast
  from True a f d show ?thesis
    by (simp add: apply_block_def block_effect_def apps_of_def files_of_def datagen_of_def)
next
  case False
  then show ?thesis by (simp add: apply_block_def config_apps_err)
qed

subsection \<open>Creating and updating an instance\<close>

lemma map_of_map_store:
  "map_of (map_store r n v) = (if n \<in> fst ` set r then (map_of r)(n \<mapsto> v) else map_of r)"
  by (induction r) (auto simp: map_store_def fun_eq_iff)

lemma map_fst_map_store: "map fst (map_store r n v) = map fst r"
  by (induction r) (auto simp: map_store_def)

lemma view_simps:
  "map_of r n = None \<Longrightarrow> view r n = empty_instance"
  "map_of r n = Some v \<Longrightarrow> view r n = v"
  by (simp_all add: view_def)

lemma touch_eq:
  "touch n c r =
     (if block_well_shaped c
      then Inr (map_store (if n \<in> fst ` set r then r else r @ [(n, empty_instance)]) n
                  (block_effect c (view r n)))
      else Inl TypeError)"
proof (cases "n \<in> fst ` set r")
  case True
  then obtain v where v: "map_of r n = Some v"
    by (metis domD dom_map_of_conv_image_fst)
  with True show ?thesis
    by (simp add: touch_def map_has_def map_get_def map_set_new_def apply_block_eq view_def)
next
  case False
  then have "map_of r n = None" by (simp add: map_of_eq_None_iff)
  with False show ?thesis
    by (simp add: touch_def map_has_def map_get_def map_set_new_def apply_block_eq view_def
        map_add_def)
qed

lemma touch_Inr:
  assumes "touch n c r = Inr r'"
  shows "block_well_shaped c"
    and "map_of r' = (map_of r)(n \<mapsto> block_effect c (view r n))"
    and "map fst r' = (if n \<in> fst ` set r then map fst r else map fst r @ [n])"
proof -
  show b: "block_well_shaped c" using assms by (simp add: touch_eq split: if_splits)
  with assms have r': "r' = map_store (if n \<in> fst ` set r then r else r @ [(n, empty_instance)]) n
                  (block_effect c (view r n))" by (simp add: touch_eq)
  show "map_of r' = (map_of r)(n \<mapsto> block_effect c (view r n))"
    unfolding r' by (auto simp: map_of_map_store fun_eq_iff map_add_def split: option.splits)
  show "map fst r' = (if n \<in> fst ` set r then map fst r else map fst r @ [n])"
    unfolding r' by (simp add: map_fst_map_store)
qed

subsection \<open>The role loop and the first pass\<close>

text \<open>
  After a step, the map holds under each selected identity the block applied to what it
  held before (the fresh instance when it held nothing), and is unchanged elsewhere.
\<close>

lemma role_loop_Inr:
  "role_loop p c n i r = Inr r' \<Longrightarrow>
     map_of r' name =
       (if name \<in> {p @ string_of_nat j | j. i \<le> j \<and> int j \<le> n}
        then Some (block_effect c (view r name)) else map_of r name)"
proof (induction p c n i r rule: role_loop.induct)
  case (1 p c n i r)
  show ?case
  proof (cases "int i \<le> n")
    case False
    with "1.prems" have "r' = r" by (simp add: role_loop.simps)
    moreover from False have "name \<notin> {p @ string_of_nat j | j. i \<le> j \<and> int j \<le> n}" by auto
    ultimately show ?thesis by (simp only: if_False)
  next
    case True
    with "1.prems" obtain r1 where t: "touch (p @ string_of_nat i) c r = Inr r1"
      and l: "role_loop p c n (Suc i) r1 = Inr r'"
      by (subst (asm) role_loop.simps) (auto split: sum.splits)
    define S where "S = {p @ string_of_nat j | j. i \<le> j \<and> int j \<le> n}"
    define S' where "S' = {p @ string_of_nat j | j. Suc i \<le> j \<and> int j \<le> n}"
    have ih: "map_of r' name =
        (if name \<in> S' then Some (block_effect c (view r1 name)) else map_of r1 name)"
      unfolding S'_def by (rule "1.IH" [OF True t l])
    note m1 = touch_Inr(2) [OF t]
    have split: "S = insert (p @ string_of_nat i) S'"
      unfolding S_def S'_def using True by (auto simp: Suc_le_eq le_less)
    have notin: "p @ string_of_nat i \<notin> S'"
      unfolding S'_def by (auto dest: string_of_nat_inj)
    have goal: "map_of r' name =
        (if name \<in> S then Some (block_effect c (view r name)) else map_of r name)"
    proof (cases "name = p @ string_of_nat i")
      case e: True
      then have "name \<notin> S'" "name \<in> S" using notin split by simp_all
      moreover have "map_of r1 name = Some (block_effect c (view r name))"
        using m1 e by simp
      ultimately show ?thesis using ih by simp
    next
      case ne: False
      then have v: "view r1 name = view r name" and m: "map_of r1 name = map_of r name"
        using m1 by (simp_all add: view_def)
      have "name \<in> S \<longleftrightarrow> name \<in> S'" using ne split by simp
      with v m ih show ?thesis by simp
    qed
    then show ?thesis unfolding S_def .
  qed
qed

lemma role_loop_ok:
  "block_well_shaped c \<Longrightarrow> \<exists>r'. role_loop p c n i r = Inr r'"
proof (induction p c n i r rule: role_loop.induct)
  case (1 p c n i r)
  show ?case
  proof (cases "int i \<le> n")
    case False
    then show ?thesis by (simp add: role_loop.simps)
  next
    case True
    from "1.prems" obtain r1 where t: "touch (p @ string_of_nat i) c r = Inr r1"
      by (simp add: touch_eq)
    from "1.IH" [OF True t "1.prems"] True t show ?thesis
      by (subst role_loop.simps) simp
  qed
qed

lemma role_loop_distinct:
  "role_loop p c n i r = Inr r' \<Longrightarrow> distinct (map fst r) \<Longrightarrow> distinct (map fst r')"
proof (induction p c n i r rule: role_loop.induct)
  case (1 p c n i r)
  show ?case
  proof (cases "int i \<le> n")
    case False
    with "1.prems" show ?thesis by (simp add: role_loop.simps)
  next
    case True
    with "1.prems" obtain r1 where t: "touch (p @ string_of_nat i) c r = Inr r1"
      and l: "role_loop p c n (Suc i) r1 = Inr r'"
      by (subst (asm) role_loop.simps) (auto split: sum.splits)
    have "distinct (map fst r1)" using touch_Inr(3) [OF t] "1.prems"(2) by auto
    with "1.IH" [OF True t l] show ?thesis .
  qed
qed

lemma set_role_names:
  "set (role_names p n) = {p @ string_of_nat j | j. 1 \<le> j \<and> int j \<le> n}"
proof -
  have "\<And>j. (1 \<le> j \<and> j < Suc (nat n)) \<longleftrightarrow> (1 \<le> j \<and> int j \<le> n)" by auto
  then show ?thesis by (auto simp: role_names_def)
qed

lemma role_names_empty: "role_names p n = [] \<longleftrightarrow> n < 1"
  by (auto simp: role_names_def)

lemma role_loop_skip: "\<not> int i \<le> n \<Longrightarrow> role_loop p c n i r = Inr r"
  by (simp add: role_loop.simps)

lemma pattern_step_Inr:
  assumes "pattern_step counts (k, c) r = Inr r'"
  shows "map_of r' name =
       (if name \<in> set (pattern_ids counts k)
        then Some (block_effect c (view r name)) else map_of r name)"
proof (cases "k = ''*''")
  case True
  with assms show ?thesis by (simp add: pattern_step_def pattern_ids_def)
next
  case ng: False
  show ?thesis
  proof (cases "CHR ''*'' \<in> set k")
    case False
    with ng assms have t: "touch k c r = Inr r'" by (simp add: pattern_step_def)
    from False ng touch_Inr(2) [OF t] show ?thesis by (simp add: pattern_ids_def)
  next
    case True
    show ?thesis
    proof (cases "map_of counts (remove1 CHR ''*'' k)")
      case None
      with True ng assms show ?thesis by (simp add: pattern_step_def pattern_ids_def)
    next
      case (Some n)
      show ?thesis
      proof (cases "n = 0")
        case z: True
        with Some True ng assms show ?thesis
          by (simp add: pattern_step_def pattern_ids_def role_names_def)
      next
        case nz: False
        with Some True ng assms have l: "role_loop (remove1 CHR ''*'' k) c n 1 r = Inr r'"
          by (simp add: pattern_step_def)
        from role_loop_Inr [OF l, of name] Some True ng show ?thesis
          by (simp add: pattern_ids_def set_role_names)
      qed
    qed
  qed
qed

lemma pattern_step_ok:
  assumes "pattern_ids counts k \<noteq> [] \<longrightarrow> block_well_shaped c"
  shows "\<exists>r'. pattern_step counts (k, c) r = Inr r'"
proof (cases "k = ''*''")
  case True
  then show ?thesis by (simp add: pattern_step_def)
next
  case ng: False
  show ?thesis
  proof (cases "CHR ''*'' \<in> set k")
    case False
    with ng assms show ?thesis by (simp add: pattern_step_def pattern_ids_def touch_eq)
  next
    case True
    show ?thesis
    proof (cases "map_of counts (remove1 CHR ''*'' k)")
      case None
      with True ng show ?thesis by (simp add: pattern_step_def)
    next
      case (Some n)
      show ?thesis
      proof (cases "n < 1")
        case l: True
        then have "role_loop (remove1 CHR ''*'' k) c n 1 r = Inr r"
          by (intro role_loop_skip) simp
        with Some True ng show ?thesis by (simp add: pattern_step_def)
      next
        case False
        with Some True ng assms have "block_well_shaped c"
          by (simp add: pattern_ids_def role_names_empty)
        from role_loop_ok [OF this, of "remove1 CHR ''*'' k" n 1 r] Some True ng False
        show ?thesis by (simp add: pattern_step_def)
      qed
    qed
  qed
qed

lemma matching_blocks_Cons:
  "matching_blocks counts ((k, c) # es) name =
     (if name \<in> set (pattern_ids counts k) then c # matching_blocks counts es name
      else matching_blocks counts es name)"
  by (simp add: matching_blocks_def)

lemma matching_blocks_none:
  "\<not> (\<exists>(k, c) \<in> set es. name \<in> set (pattern_ids counts k)) \<Longrightarrow>
     matching_blocks counts es name = []"
  by (auto simp: matching_blocks_def filter_empty_conv)

lemma first_pass_Inr:
  "first_pass counts es r = Inr r' \<Longrightarrow>
     map_of r' name =
       (if \<exists>(k, c) \<in> set es. name \<in> set (pattern_ids counts k)
        then Some (fold block_effect (matching_blocks counts es name) (view r name))
        else map_of r name)"
proof (induction es arbitrary: r)
  case Nil
  then show ?case by simp
next
  case (Cons entry es)
  obtain k c where entry: "entry = (k, c)" by (cases entry)
  from Cons.prems obtain r1 where p: "pattern_step counts (k, c) r = Inr r1"
    and f: "first_pass counts es r1 = Inr r'"
    by (auto simp: entry split: sum.splits)
  note ih = Cons.IH [OF f]
  note st = pattern_step_Inr [OF p, of name]
  show ?case
  proof (cases "name \<in> set (pattern_ids counts k)")
    case True
    with st have m: "map_of r1 name = Some (block_effect c (view r name))" by simp
    then have v: "view r1 name = block_effect c (view r name)" by (simp add: view_def)
    show ?thesis
    proof (cases "\<exists>(k, c) \<in> set es. name \<in> set (pattern_ids counts k)")
      case l: True
      with True ih v show ?thesis by (simp add: entry matching_blocks_Cons)
    next
      case l: False
      with True ih m matching_blocks_none [OF l] show ?thesis
        by (simp add: entry matching_blocks_Cons)
    qed
  next
    case False
    with st have m: "map_of r1 name = map_of r name" by simp
    then have v: "view r1 name = view r name" by (simp add: view_def)
    from False ih m v show ?thesis by (simp add: entry matching_blocks_Cons)
  qed
qed

lemma first_pass_ok:
  "\<forall>(k, c) \<in> set es. pattern_ids counts k \<noteq> [] \<longrightarrow> block_well_shaped c \<Longrightarrow>
     \<exists>r'. first_pass counts es r = Inr r'"
proof (induction es arbitrary: r)
  case Nil
  then show ?case by simp
next
  case (Cons entry es)
  obtain k c where entry: "entry = (k, c)" by (cases entry)
  from Cons.prems have "pattern_ids counts k \<noteq> [] \<longrightarrow> block_well_shaped c"
    by (simp add: entry)
  then obtain r1 where p: "pattern_step counts (k, c) r = Inr r1"
    using pattern_step_ok by blast
  from Cons.prems have "\<forall>(k, c) \<in> set es. pattern_ids counts k \<noteq> [] \<longrightarrow> block_well_shaped c"
    by simp
  from Cons.IH [OF this, of r1] p show ?case by (simp add: entry)
qed

subsection \<open>The second pass and the result\<close>

lemma second_pass_eq:
  "second_pass g r =
     (if block_well_shaped g \<or> r = [] then Inr (map (\<lambda>(k, v). (k, block_effect g v)) r)
      else Inl TypeError)"
  by (induction r) (auto simp: apply_block_eq)

lemma set_object_entries: "set (object_entries ps) = set ps"
  by (auto simp: object_entries_def)

lemma object_entries_plain:
  "\<forall>k \<in> fst ` set ps. \<not> is_array_index k \<Longrightarrow> object_entries ps = ps"
proof -
  assume a: "\<forall>k \<in> fst ` set ps. \<not> is_array_index k"
  then have "filter (\<lambda>(k, v). is_array_index k) ps = []"
    by (auto simp: filter_empty_conv)
  moreover from a have "filter (\<lambda>(k, v). \<not> is_array_index k) ps = ps"
    by (auto simp: filter_id_conv)
  ultimately show ?thesis by (simp add: object_entries_def)
qed

lemma block_effect_sel:
  "apps (block_effect c e) = apps e @ apps_of c"
  "files (block_effect c e) = files e @ files_of c"
  "datagen (block_effect c e) = (case datagen_of c of None \<Rightarrow> datagen e | Some d \<Rightarrow> Some d)"
  by (simp_all add: block_effect_def)

lemma fold_block_effect_apps:
  "apps (fold block_effect cs e) = apps e @ concat (map apps_of cs)"
  by (induction cs arbitrary: e) (simp_all add: block_effect_sel)

lemma fold_block_effect_files:
  "files (fold block_effect cs e) = files e @ concat (map files_of cs)"
  by (induction cs arbitrary: e) (simp_all add: block_effect_sel)


lemma map_of_block_map:
  "map_of (map (\<lambda>(k, v). (k, f v)) r) name = map_option f (map_of r name)"
  by (induction r) auto

lemma resolve_unfold:
  assumes "resolveInstances ps spec = Inr out"
  obtains r where "first_pass (instance_counts spec) (object_entries ps) [] = Inr r"
    and "(if truthy (own_prop (JObj ps) ''*'') then second_pass (own_prop (JObj ps) ''*'') r
          else Inr r) = Inr out"
  using assms
  by (cases "first_pass (instance_counts spec) (object_entries ps) []")
     (simp_all add: resolveInstances_def Let_def del: own_prop.simps)

lemma resolve_Inr:
  assumes "resolveInstances ps spec = Inr out"
  shows "map_of out name =
     (if \<exists>(k, c) \<in> set ps. name \<in> set (pattern_ids (instance_counts spec) k)
      then Some (fold block_effect
             (matching_blocks (instance_counts spec) (object_entries ps) name
              @ (if truthy (own_prop (JObj ps) ''*'') then [own_prop (JObj ps) ''*''] else []))
             empty_instance)
      else None)"
proof -
  from assms obtain r where fp: "first_pass (instance_counts spec) (object_entries ps) [] = Inr r"
    and sp: "(if truthy (own_prop (JObj ps) ''*'') then second_pass (own_prop (JObj ps) ''*'') r
              else Inr r) = Inr out"
    by (rule resolve_unfold)
  have m: "map_of r name =
     (if \<exists>(k, c) \<in> set ps. name \<in> set (pattern_ids (instance_counts spec) k)
      then Some (fold block_effect
             (matching_blocks (instance_counts spec) (object_entries ps) name) empty_instance)
      else None)"
    using first_pass_Inr [OF fp, of name] by (simp add: set_object_entries view_def)
  show ?thesis
  proof (cases "truthy (own_prop (JObj ps) ''*'')")
    case False
    with sp have "out = r" by simp
    with m False show ?thesis by simp
  next
    case True
    with sp have "out = map (\<lambda>(k, v). (k, block_effect (own_prop (JObj ps) ''*'') v)) r"
      by (simp add: second_pass_eq split: if_splits)
    with m True show ?thesis by (simp add: map_of_block_map)
  qed
qed

lemma touch_distinct:
  "touch n c r = Inr r' \<Longrightarrow> distinct (map fst r) \<Longrightarrow> distinct (map fst r')"
  using touch_Inr(3) [of n c r r'] by auto

lemma pattern_step_distinct:
  "pattern_step counts entry r = Inr r' \<Longrightarrow> distinct (map fst r) \<Longrightarrow> distinct (map fst r')"
  by (cases entry)
     (auto simp: pattern_step_def Let_def split: if_splits option.splits
           dest: touch_distinct role_loop_distinct)

lemma first_pass_distinct:
  "first_pass counts es r = Inr r' \<Longrightarrow> distinct (map fst r) \<Longrightarrow> distinct (map fst r')"
proof (induction es arbitrary: r)
  case Nil
  then show ?case by simp
next
  case (Cons entry es)
  from Cons.prems(1) obtain r1 where p: "pattern_step counts entry r = Inr r1"
    and f: "first_pass counts es r1 = Inr r'"
    by (auto split: sum.splits)
  from pattern_step_distinct [OF p Cons.prems(2)] Cons.IH [OF f] show ?case by simp
qed

lemma second_pass_keys: "second_pass g r = Inr r' \<Longrightarrow> map fst r' = map fst r"
  by (auto simp: second_pass_eq comp_def case_prod_unfold split: if_splits)

lemma resolve_distinct:
  assumes "resolveInstances ps spec = Inr out"
  shows "distinct (map fst out)"
proof -
  from assms obtain r where fp: "first_pass (instance_counts spec) (object_entries ps) [] = Inr r"
    and sp: "(if truthy (own_prop (JObj ps) ''*'') then second_pass (own_prop (JObj ps) ''*'') r
              else Inr r) = Inr out"
    by (rule resolve_unfold)
  from first_pass_distinct [OF fp] have "distinct (map fst r)" by simp
  moreover from sp have "map fst out = map fst r"
    by (auto dest: second_pass_keys split: if_splits)
  ultimately show ?thesis by simp
qed

lemma resolve_ok:
  assumes "\<forall>(k, c) \<in> set ps. pattern_ids (instance_counts spec) k \<noteq> [] \<longrightarrow> block_well_shaped c"
    and "truthy (own_prop (JObj ps) ''*'') \<longrightarrow> block_well_shaped (own_prop (JObj ps) ''*'')"
  shows "\<exists>out. resolveInstances ps spec = Inr out"
proof -
  from assms(1) obtain r where "first_pass (instance_counts spec) (object_entries ps) [] = Inr r"
    using first_pass_ok [of "object_entries ps" "instance_counts spec" "[]"]
    by (auto simp: set_object_entries)
  with assms(2) show ?thesis
    by (simp add: resolveInstances_def Let_def second_pass_eq)
qed


subsection \<open>Entries the resolver cannot tell apart\<close>

lemma touch_cong:
  assumes "apply_block c = apply_block c'"
  shows "touch n c r = touch n c' r"
  unfolding touch_def assms ..

lemma role_loop_cong:
  "apply_block c = apply_block c' \<Longrightarrow> role_loop p c n i r = role_loop p c' n i r"
proof (induction p c n i r rule: role_loop.induct)
  case (1 p c n i r)
  show ?case
  proof (cases "int i \<le> n")
    case False
    then show ?thesis by (simp add: role_loop.simps)
  next
    case True
    have t: "touch (p @ string_of_nat i) c r = touch (p @ string_of_nat i) c' r"
      using "1.prems" by (rule touch_cong)
    have L: "role_loop p c n i r =
        (case touch (p @ string_of_nat i) c r of Inl e \<Rightarrow> Inl e
         | Inr r1 \<Rightarrow> role_loop p c n (Suc i) r1)"
      using True by (subst role_loop.simps) simp
    have R: "role_loop p c' n i r =
        (case touch (p @ string_of_nat i) c' r of Inl e \<Rightarrow> Inl e
         | Inr r1 \<Rightarrow> role_loop p c' n (Suc i) r1)"
      using True by (subst role_loop.simps) simp
    show ?thesis
    proof (cases "touch (p @ string_of_nat i) c r")
      case (Inl e)
      with t have "touch (p @ string_of_nat i) c' r = Inl e" by simp
      with Inl show ?thesis unfolding L R by simp
    next
      case (Inr r1)
      from "1.IH" [OF True Inr "1.prems"] Inr t show ?thesis
        unfolding L R by (simp split: sum.splits)
    qed
  qed
qed

lemma pattern_step_cong:
  "apply_block c = apply_block c' \<Longrightarrow> pattern_step counts (k, c) r = pattern_step counts (k, c') r"
  by (simp add: pattern_step_def Let_def touch_cong [of c c'] role_loop_cong [of c c']
           split: option.splits)

lemma first_pass_cong:
  "list_all2 same_entry es es' \<Longrightarrow> first_pass counts es r = first_pass counts es' r"
proof (induction es es' arbitrary: r rule: list_all2_induct)
  case Nil
  show ?case by simp
next
  case (Cons a es b es')
  obtain k c where a: "a = (k, c)" by (cases a)
  obtain k' c' where b: "b = (k', c')" by (cases b)
  from Cons.hyps(1) have k: "k' = k" and ab: "apply_block c = apply_block c'"
    by (simp_all add: same_entry_def a b)
  have "pattern_step counts a r = pattern_step counts b r"
    unfolding a b k using ab by (rule pattern_step_cong)
  with Cons.IH show ?case by (simp split: sum.splits)
qed

lemma insort_key_cong:
  assumes "\<And>x y. R x y \<Longrightarrow> f x = f y"
  shows "list_all2 R xs ys \<Longrightarrow> R a b \<Longrightarrow>
     list_all2 R (insort_key f a xs) (insort_key f b ys)"
proof (induction xs ys rule: list_all2_induct)
  case Nil
  then show ?case by simp
next
  case (Cons x xs y ys)
  from assms [OF Cons.hyps(1)] assms [OF Cons.prems] Cons show ?case by simp
qed

lemma sort_key_cong:
  assumes "\<And>x y. R x y \<Longrightarrow> f x = f y"
  shows "list_all2 R xs ys \<Longrightarrow> list_all2 R (sort_key f xs) (sort_key f ys)"
proof (induction xs ys rule: list_all2_induct)
  case Nil
  show ?case by simp
next
  case (Cons x xs y ys)
  from insort_key_cong [of R f, OF assms Cons.IH Cons.hyps(1)] show ?case by simp
qed

lemma filter_cong2:
  assumes "\<And>x y. R x y \<Longrightarrow> P x = P y"
  shows "list_all2 R xs ys \<Longrightarrow> list_all2 R (filter P xs) (filter P ys)"
proof (induction xs ys rule: list_all2_induct)
  case Nil
  show ?case by simp
next
  case (Cons x xs y ys)
  with assms [OF Cons.hyps(1)] show ?case by simp
qed

lemma object_entries_cong:
  assumes "list_all2 same_entry ps ps'"
  shows "list_all2 same_entry (object_entries ps) (object_entries ps')"
proof -
  have k: "\<And>x y. same_entry x y \<Longrightarrow> fst x = fst y" by (simp add: same_entry_def)
  have 1: "list_all2 same_entry (filter (\<lambda>(k, v). is_array_index k) ps)
             (filter (\<lambda>(k, v). is_array_index k) ps')"
    using assms by (intro filter_cong2) (auto simp: case_prod_unfold dest: k)
  have 2: "list_all2 same_entry (filter (\<lambda>(k, v). \<not> is_array_index k) ps)
             (filter (\<lambda>(k, v). \<not> is_array_index k) ps')"
    using assms by (intro filter_cong2) (auto simp: case_prod_unfold dest: k)
  have 3: "list_all2 same_entry
             (sort_key (\<lambda>(k, v). decimal_value k) (filter (\<lambda>(k, v). is_array_index k) ps))
             (sort_key (\<lambda>(k, v). decimal_value k) (filter (\<lambda>(k, v). is_array_index k) ps'))"
    using 1 by (intro sort_key_cong) (auto simp: case_prod_unfold dest: k)
  from 3 2 show ?thesis unfolding object_entries_def by (rule list_all2_appendI)
qed

lemma global_cong:
  "list_all2 same_entry ps ps' \<Longrightarrow>
     apply_block (own_prop (JObj ps) n) = apply_block (own_prop (JObj ps') n)
     \<and> truthy (own_prop (JObj ps) n) = truthy (own_prop (JObj ps') n)"
proof (induction ps ps' rule: list_all2_induct)
  case Nil
  show ?case by simp
next
  case (Cons a ps b ps')
  then show ?case by (cases a; cases b) (auto simp: same_entry_def)
qed

lemma second_pass_cong:
  "apply_block g = apply_block g' \<Longrightarrow> second_pass g r = second_pass g' r"
  by (induction r) (auto split: sum.splits)

lemma resolveInstances_cong:
  assumes "list_all2 same_entry ps ps'"
  shows "resolveInstances ps spec = resolveInstances ps' spec"
proof -
  have 1: "first_pass (instance_counts spec) (object_entries ps) []
         = first_pass (instance_counts spec) (object_entries ps') []"
    using object_entries_cong [OF assms] by (rule first_pass_cong)
  from global_cong [OF assms, of "''*''"]
  have 2: "apply_block (own_prop (JObj ps) ''*'') = apply_block (own_prop (JObj ps') ''*'')"
    and 3: "truthy (own_prop (JObj ps) ''*'') = truthy (own_prop (JObj ps') ''*'')" by simp_all
  have 4: "\<And>r. second_pass (own_prop (JObj ps) ''*'') r = second_pass (own_prop (JObj ps') ''*'') r"
    using 2 by (rule second_pass_cong)
  show ?thesis
    unfolding resolveInstances_def Let_def 1 3 4 ..
qed

lemma same_entry_refl: "same_entry a a"
  by (simp add: same_entry_def)

lemma same_entry_at:
  "same_entry (k, c) (k, c') \<Longrightarrow>
     list_all2 same_entry (pre @ (k, c) # post) (pre @ (k, c') # post)"
  by (intro list_all2_appendI list.rel_intros)
     (simp_all add: list_all2_same same_entry_refl list.rel_refl)

lemma legacy_apps_equiv:
  "config_apps (JObj (p1 @ (''apps'', JArr (map JStr ss)) # p2))
   = config_apps (JObj (p1 @ (''apps'',
        JObj [(''source'', JArr (map JStr ss)), (''destination'', JStr ''apps'')]) # p2))"
proof (cases "map_of p1 ''apps''")
  case (Some v)
  then show ?thesis by (simp add: config_apps_def map_add_def)
next
  case None
  then show ?thesis
    by (cases ss)
       (simp_all add: config_apps_def map_add_def app_group_def map_refs_def js_or_def)
qed

lemma other_prop_same:
  "name \<noteq> k \<Longrightarrow> own_prop (JObj (p1 @ (k, x) # p2)) name = own_prop (JObj (p1 @ (k, y) # p2)) name"
  by (simp add: map_add_def split: option.splits)

subsection \<open>Without an argument limit the only error is a TypeError\<close>

lemma role_loop_Inl: "role_loop p c n i r = Inl e \<Longrightarrow> e = TypeError \<and> \<not> block_well_shaped c"
proof (induction p c n i r rule: role_loop.induct)
  case (1 p c n i r)
  show ?case
  proof (cases "int i \<le> n")
    case False
    with "1.prems" show ?thesis by (simp add: role_loop.simps)
  next
    case True
    show ?thesis
    proof (cases "touch (p @ string_of_nat i) c r")
      case (Inl e')
      with True "1.prems" have "e' = e" by (subst (asm) role_loop.simps) simp
      with Inl show ?thesis by (simp add: touch_eq split: if_splits)
    next
      case (Inr r1)
      with True "1.prems" have "role_loop p c n (Suc i) r1 = Inl e"
        by (subst (asm) role_loop.simps) simp
      from "1.IH" [OF True Inr this] show ?thesis .
    qed
  qed
qed

lemma pattern_step_Inl:
  "pattern_step counts (k, c) r = Inl e \<Longrightarrow> e = TypeError \<and> \<not> block_well_shaped c"
  by (auto simp: pattern_step_def Let_def touch_eq split: if_splits option.splits
           dest: role_loop_Inl)

lemma first_pass_Inl:
  "first_pass counts es r = Inl e \<Longrightarrow> e = TypeError \<and> (\<exists>(k, c) \<in> set es. \<not> block_well_shaped c)"
proof (induction es arbitrary: r)
  case Nil
  then show ?case by simp
next
  case (Cons entry es)
  obtain k c where entry: "entry = (k, c)" by (cases entry)
  show ?case
  proof (cases "pattern_step counts (k, c) r")
    case (Inl e')
    with Cons.prems have "e' = e" by (simp add: entry)
    with pattern_step_Inl [OF Inl] show ?thesis by (simp add: entry)
  next
    case (Inr r1)
    with Cons.prems have "first_pass counts es r1 = Inl e" by (simp add: entry)
    from Cons.IH [OF this] show ?thesis by auto
  qed
qed

lemma own_prop_in_set:
  "truthy (own_prop (JObj ps) name) \<Longrightarrow> (name, own_prop (JObj ps) name) \<in> set ps"
  by (cases "map_of ps name") (auto dest: map_of_SomeD)

lemma resolve_Inl:
  assumes "resolveInstances ps spec = Inl e"
  shows "e = TypeError \<and> (\<exists>(k, c) \<in> set ps. \<not> block_well_shaped c)"
proof (cases "first_pass (instance_counts spec) (object_entries ps) []")
  case (Inl e')
  with assms have "e' = e" by (simp add: resolveInstances_def)
  with first_pass_Inl [OF Inl] show ?thesis by (simp add: set_object_entries)
next
  case (Inr r)
  with assms have t: "truthy (own_prop (JObj ps) ''*'')"
    and s: "second_pass (own_prop (JObj ps) ''*'') r = Inl e"
    by (auto simp: resolveInstances_def Let_def simp del: own_prop.simps split: if_splits)
  from s have "e = TypeError" "\<not> block_well_shaped (own_prop (JObj ps) ''*'')"
    by (auto simp: second_pass_eq simp del: own_prop.simps split: if_splits)
  with own_prop_in_set [OF t] show ?thesis by blast
qed

subsection \<open>The resolver under an argument limit\<close>

text \<open>
  Where no spread array exceeds the limit, the resolver under the limit is the resolver
  without one; and whatever the limit, a mapping it returns is the mapping the resolver
  without a limit returns.
\<close>

declare role_loop_within.simps [simp del]

lemma push_spread_Inr: "push_spread limit refs = Inr refs' \<Longrightarrow> refs' = refs"
  by (simp add: push_spread_def split: if_splits)

lemma push_spread_ok: "length refs \<le> limit \<Longrightarrow> push_spread limit refs = Inr refs"
  by (simp add: push_spread_def)

lemma map_refs_length: "map_refs s d = Inr refs \<Longrightarrow> \<exists>ys. s = JArr ys \<and> length refs = length ys"
  by (cases s) (auto simp: map_refs_def)

lemma app_group_within_Inr: "app_group_within limit g = Inr refs \<Longrightarrow> app_group g = Inr refs"
  by (auto simp: app_group_within_def app_group_def split: sum.splits if_splits
           dest: push_spread_Inr)

lemma app_group_within_eq:
  assumes "source_within limit g"
  shows "app_group_within limit g = app_group g"
proof (cases "map_refs (own_prop g ''source'') (js_or (own_prop g ''destination'') (JStr ''apps''))")
  case (Inl e)
  then show ?thesis
    by (cases "nullish g") (simp_all add: app_group_within_def app_group_def)
next
  case (Inr refs)
  from map_refs_length [OF this] assms have "length refs \<le> limit"
    by (auto simp: source_within_def)
  with Inr show ?thesis
    by (cases "nullish g") (simp_all add: app_group_within_def app_group_def push_spread_ok)
qed

lemma app_groups_within_Inr:
  "app_groups_within limit gs = Inr refs \<Longrightarrow> app_groups gs = Inr refs"
  by (induction gs arbitrary: refs)
     (auto split: sum.splits dest: app_group_within_Inr)

lemma app_groups_within_eq:
  "list_all (source_within limit) gs \<Longrightarrow> app_groups_within limit gs = app_groups gs"
  by (induction gs) (simp_all add: app_group_within_eq split: sum.splits)

lemma config_apps_within_Inr:
  "config_apps_within limit c = Inr refs \<Longrightarrow> config_apps c = Inr refs"
  by (auto simp: config_apps_within_def config_apps_def
           split: sum.splits if_splits jsval.splits
           dest: push_spread_Inr app_groups_within_Inr app_group_within_Inr)

lemma config_apps_within_eq:
  assumes "apps_within limit (own_prop c ''apps'')"
  shows "config_apps_within limit c = config_apps c"
proof (cases "nullish c")
  case True
  then show ?thesis by (simp add: config_apps_within_def config_apps_def)
next
  case False
  show ?thesis
  proof (cases "own_prop c ''apps''")
    case (JArr xs)
    with False assms show ?thesis
      by (simp add: config_apps_within_def config_apps_def apps_within_def push_spread_ok
            app_groups_within_eq split: if_splits)
  next
    case (JObj ps)
    with assms have "source_within limit (JObj ps)" by (simp add: apps_within_def)
    from app_group_within_eq [OF this] JObj False show ?thesis
      by (simp add: config_apps_within_def config_apps_def)
  qed (use False in \<open>simp_all add: config_apps_within_def config_apps_def
          app_group_within_def app_group_def\<close>)
qed

lemma config_files_within_Inr:
  "config_files_within limit c = Inr refs \<Longrightarrow> config_files c = Inr refs"
  by (auto simp: config_files_within_def config_files_def Let_def
           split: sum.splits if_splits dest: push_spread_Inr)

lemma config_files_within_eq:
  assumes "source_within limit (own_prop c ''files'')"
  shows "config_files_within limit c = config_files c"
proof (cases "nullish c \<or> \<not> truthy (own_prop c ''files'')")
  case True
  then show ?thesis
    by (cases "nullish c") (auto simp: config_files_within_def config_files_def)
next
  case False
  then have nn: "\<not> nullish c" and t: "truthy (own_prop c ''files'')" by simp_all
  from t have nf: "\<not> nullish (own_prop c ''files'')" by (rule truthy_not_nullish)
  show ?thesis
  proof (cases "own_prop (own_prop c ''files'') ''source''")
    case (JArr ys)
    with assms have "length ys \<le> limit" by (simp add: source_within_def)
    with JArr nn t nf show ?thesis
      by (simp add: config_files_within_def config_files_def Let_def map_refs_def
            push_spread_ok del: own_prop.simps)
  qed (use nn t nf in \<open>simp_all add: config_files_within_def config_files_def Let_def
          del: own_prop.simps\<close>)
qed

lemma apply_block_within_Inr:
  "apply_block_within limit c e = Inr e' \<Longrightarrow> apply_block c e = Inr e'"
  by (auto simp: apply_block_within_def apply_block_def split: sum.splits
           dest: config_apps_within_Inr config_files_within_Inr)

lemma apply_block_within_eq:
  assumes "block_within limit c"
  shows "apply_block_within limit c = apply_block c"
proof -
  from assms have a: "config_apps_within limit c = config_apps c"
    and f: "config_files_within limit c = config_files c"
    by (simp_all add: block_within_def config_apps_within_eq config_files_within_eq)
  show ?thesis by (rule ext) (simp only: apply_block_within_def apply_block_def a f)
qed

lemma touch_within_eq:
  assumes "apply_block_within limit c = apply_block c"
  shows "touch_within limit n c r = touch n c r"
  unfolding touch_within_def touch_def assms ..

lemma touch_within_Inr: "touch_within limit n c r = Inr r' \<Longrightarrow> touch n c r = Inr r'"
  by (auto simp: touch_within_def touch_def Let_def split: option.splits sum.splits if_splits
           dest: apply_block_within_Inr)

lemma role_loop_within_eq:
  "apply_block_within limit c = apply_block c \<Longrightarrow>
     role_loop_within limit p c n i r = role_loop p c n i r"
proof (induction limit p c n i r rule: role_loop_within.induct)
  case (1 limit p c n i r)
  show ?case
  proof (cases "int i \<le> n")
    case False
    then show ?thesis by (simp add: role_loop_within.simps role_loop.simps)
  next
    case True
    have t: "touch_within limit (p @ string_of_nat i) c r = touch (p @ string_of_nat i) c r"
      using "1.prems" by (rule touch_within_eq)
    have L: "role_loop_within limit p c n i r =
        (case touch (p @ string_of_nat i) c r of Inl e \<Rightarrow> Inl e
         | Inr r1 \<Rightarrow> role_loop_within limit p c n (Suc i) r1)"
      using True t by (subst role_loop_within.simps) simp
    have R: "role_loop p c n i r =
        (case touch (p @ string_of_nat i) c r of Inl e \<Rightarrow> Inl e
         | Inr r1 \<Rightarrow> role_loop p c n (Suc i) r1)"
      using True by (subst role_loop.simps) simp
    show ?thesis
    proof (cases "touch (p @ string_of_nat i) c r")
      case (Inl e)
      then show ?thesis unfolding L R by simp
    next
      case (Inr r1)
      with t have "touch_within limit (p @ string_of_nat i) c r = Inr r1" by simp
      from "1.IH" [OF True this "1.prems"] Inr show ?thesis unfolding L R by simp
    qed
  qed
qed

lemma role_loop_within_Inr:
  "role_loop_within limit p c n i r = Inr r' \<Longrightarrow> role_loop p c n i r = Inr r'"
proof (induction limit p c n i r rule: role_loop_within.induct)
  case (1 limit p c n i r)
  show ?case
  proof (cases "int i \<le> n")
    case False
    with "1.prems" show ?thesis by (simp add: role_loop_within.simps role_loop.simps)
  next
    case True
    with "1.prems" obtain r1 where
      t: "touch_within limit (p @ string_of_nat i) c r = Inr r1"
      and l: "role_loop_within limit p c n (Suc i) r1 = Inr r'"
      by (subst (asm) role_loop_within.simps) (auto split: sum.splits)
    from touch_within_Inr [OF t] "1.IH" [OF True t l] True show ?thesis
      by (subst role_loop.simps) simp
  qed
qed

lemma role_loop_within_skip: "\<not> int i \<le> n \<Longrightarrow> role_loop_within limit p c n i r = Inr r"
  by (simp add: role_loop_within.simps)

lemma pattern_step_within_eq:
  assumes "pattern_ids counts k \<noteq> [] \<longrightarrow> apply_block_within limit c = apply_block c"
  shows "pattern_step_within limit counts (k, c) r = pattern_step counts (k, c) r"
proof (cases "pattern_ids counts k = []")
  case False
  with assms have e: "apply_block_within limit c = apply_block c" by simp
  show ?thesis
    by (simp add: pattern_step_within_def pattern_step_def Let_def
          touch_within_eq [OF e] role_loop_within_eq [OF e] split: option.splits)
next
  case True
  show ?thesis
  proof (cases "k = ''*''")
    case g: True
    then show ?thesis by (simp add: pattern_step_within_def pattern_step_def)
  next
    case ng: False
    with True have star: "CHR ''*'' \<in> set k" by (auto simp: pattern_ids_def split: if_splits)
    show ?thesis
    proof (cases "map_of counts (remove1 CHR ''*'' k)")
      case None
      with ng star show ?thesis by (simp add: pattern_step_within_def pattern_step_def)
    next
      case (Some n)
      with True ng star have "n < 1" by (simp add: pattern_ids_def role_names_empty)
      then have "\<not> int 1 \<le> n" by simp
      from role_loop_within_skip [OF this] role_loop_skip [OF this] Some ng star
      show ?thesis by (simp add: pattern_step_within_def pattern_step_def)
    qed
  qed
qed

lemma pattern_step_within_Inr:
  "pattern_step_within limit counts entry r = Inr r' \<Longrightarrow> pattern_step counts entry r = Inr r'"
  by (cases entry)
     (auto simp: pattern_step_within_def pattern_step_def Let_def
           split: if_splits option.splits dest: touch_within_Inr role_loop_within_Inr)

lemma first_pass_within_eq:
  "\<forall>(k, c) \<in> set es. pattern_ids counts k \<noteq> [] \<longrightarrow> apply_block_within limit c = apply_block c \<Longrightarrow>
     first_pass_within limit counts es r = first_pass counts es r"
proof (induction es arbitrary: r)
  case Nil
  show ?case by simp
next
  case (Cons entry es)
  obtain k c where entry: "entry = (k, c)" by (cases entry)
  from Cons.prems have "pattern_ids counts k \<noteq> [] \<longrightarrow> apply_block_within limit c = apply_block c"
    by (simp add: entry)
  then have p: "pattern_step_within limit counts entry r = pattern_step counts entry r"
    unfolding entry by (rule pattern_step_within_eq)
  from Cons.prems have "\<forall>(k, c) \<in> set es.
      pattern_ids counts k \<noteq> [] \<longrightarrow> apply_block_within limit c = apply_block c" by simp
  from Cons.IH [OF this] p show ?case by (simp split: sum.splits)
qed

lemma first_pass_within_Inr:
  "first_pass_within limit counts es r = Inr r' \<Longrightarrow> first_pass counts es r = Inr r'"
proof (induction es arbitrary: r)
  case Nil
  then show ?case by simp
next
  case (Cons entry es)
  from Cons.prems obtain r1 where p: "pattern_step_within limit counts entry r = Inr r1"
    and f: "first_pass_within limit counts es r1 = Inr r'"
    by (auto split: sum.splits)
  from pattern_step_within_Inr [OF p] Cons.IH [OF f] show ?case by simp
qed

lemma second_pass_within_eq:
  "apply_block_within limit g = apply_block g \<Longrightarrow> second_pass_within limit g r = second_pass g r"
  by (induction r) (auto split: sum.splits)

lemma second_pass_within_Inr:
  "second_pass_within limit g r = Inr r' \<Longrightarrow> second_pass g r = Inr r'"
proof (induction r arbitrary: r')
  case Nil
  then show ?case by simp
next
  case (Cons entry r)
  obtain n e where entry: "entry = (n, e)" by (cases entry)
  from Cons.prems obtain e' rest where a: "apply_block_within limit g e = Inr e'"
    and s: "second_pass_within limit g r = Inr rest" and r': "r' = (n, e') # rest"
    by (auto simp: entry split: sum.splits)
  from apply_block_within_Inr [OF a] Cons.IH [OF s] r' show ?case by (simp add: entry)
qed

lemma resolveInstances_within_eq:
  assumes "\<forall>(k, c) \<in> set ps. pattern_ids (instance_counts spec) k \<noteq> [] \<longrightarrow> block_within limit c"
    and "truthy (own_prop (JObj ps) ''*'') \<longrightarrow> block_within limit (own_prop (JObj ps) ''*'')"
  shows "resolveInstances_within limit ps spec = resolveInstances ps spec"
proof -
  from assms(1) have "\<forall>(k, c) \<in> set (object_entries ps).
      pattern_ids (instance_counts spec) k \<noteq> [] \<longrightarrow> apply_block_within limit c = apply_block c"
    by (auto simp: set_object_entries dest: apply_block_within_eq)
  then have 1: "first_pass_within limit (instance_counts spec) (object_entries ps) []
      = first_pass (instance_counts spec) (object_entries ps) []"
    by (rule first_pass_within_eq)
  have 2: "second_pass_within limit (own_prop (JObj ps) ''*'') r
      = second_pass (own_prop (JObj ps) ''*'') r"
    if "truthy (own_prop (JObj ps) ''*'')" for r
    using that assms(2) by (intro second_pass_within_eq apply_block_within_eq) simp
  show ?thesis
    unfolding resolveInstances_within_def resolveInstances_def Let_def 1
    using 2 by (simp split: sum.splits del: own_prop.simps)
qed

lemma resolveInstances_within_Inr:
  assumes "resolveInstances_within limit ps spec = Inr out"
  shows "resolveInstances ps spec = Inr out"
proof (cases "first_pass_within limit (instance_counts spec) (object_entries ps) []")
  case (Inl e)
  with assms show ?thesis by (simp add: resolveInstances_within_def)
next
  case (Inr r)
  note f = first_pass_within_Inr [OF Inr]
  show ?thesis
  proof (cases "truthy (own_prop (JObj ps) ''*'')")
    case True
    with assms Inr have "second_pass_within limit (own_prop (JObj ps) ''*'') r = Inr out"
      by (simp add: resolveInstances_within_def Let_def del: own_prop.simps)
    from second_pass_within_Inr [OF this] True f show ?thesis
      by (simp add: resolveInstances_def Let_def del: own_prop.simps)
  next
    case False
    with assms Inr f show ?thesis
      by (simp add: resolveInstances_within_def resolveInstances_def Let_def
               del: own_prop.simps)
  qed
qed

subsection \<open>The datagen part, and a result under the limit\<close>

lemma config_datagen_eq:
  assumes "\<not> nullish config"
  shows "config_datagen config = Inr (declared_datagen config)"
proof (cases "truthy (own_prop config ''datagens'')")
  case True
  with assms show ?thesis
    by (simp add: config_datagen_def declared_datagen_def datagen_declaration_def
          datagen_recognised_def js_or_def truthy_not_nullish del: own_prop.simps)
next
  case False
  with assms show ?thesis
    by (simp add: config_datagen_def declared_datagen_def datagen_declaration_def
          datagen_recognised_def js_or_def truthy_not_nullish del: own_prop.simps)
qed

lemma config_files_within_ok:
  assumes "\<not> nullish c" and "source_within limit (own_prop c ''files'')"
  shows "\<exists>refs. config_files_within limit c = Inr refs"
  using config_files_ok [OF assms(1)] config_files_within_eq [OF assms(2)] by simp

lemma resolve_within_ok:
  assumes "\<forall>(k, c) \<in> set ps. pattern_ids (instance_counts spec) k \<noteq> []
              \<longrightarrow> block_well_shaped c \<and> block_within limit c"
    and "truthy (own_prop (JObj ps) ''*'')
           \<longrightarrow> block_well_shaped (own_prop (JObj ps) ''*'')
               \<and> block_within limit (own_prop (JObj ps) ''*'')"
  shows "\<exists>out. resolveInstances_within limit ps spec = Inr out
            \<and> resolveInstances ps spec = Inr out"
proof -
  from assms(1) have 1: "\<forall>(k, c) \<in> set ps. pattern_ids (instance_counts spec) k \<noteq> []
      \<longrightarrow> block_well_shaped c" by blast
  from assms(1) have 2: "\<forall>(k, c) \<in> set ps. pattern_ids (instance_counts spec) k \<noteq> []
      \<longrightarrow> block_within limit c" by blast
  from assms(2) have 3: "truthy (own_prop (JObj ps) ''*'')
      \<longrightarrow> block_well_shaped (own_prop (JObj ps) ''*'')" by blast
  from assms(2) have 4: "truthy (own_prop (JObj ps) ''*'')
      \<longrightarrow> block_within limit (own_prop (JObj ps) ''*'')" by blast
  from resolve_ok [OF 1 3] obtain out where "resolveInstances ps spec = Inr out" ..
  with resolveInstances_within_eq [OF 2 4] show ?thesis by simp
qed

section \<open>The claims\<close>

text \<open>
  C1 (amended). \<open>resolveInstances\<close> raises no error when every block it applies (the block
  of each exact key, of each starred key whose role has a count of at least one, and a
  truthy global block) is neither null nor undefined, has an apps declaration that is
  falsy, an array starting with a string, or made of objects, none of them null or
  undefined, whose source is falsy or an array, and spreads no array longer than the
  engine's argument limit into a push; the mapping it then returns is the one the resolver
  without a limit returns. In a block that is not null or undefined, every declaration
  that the code reads without recognising a shape contributes nothing: such an apps
  declaration and such a files declaration append the empty sequence, such a datagen
  declaration leaves the slot alone, and a block made of such declarations returns the
  instance as it was. The datagen part never raises, and the files part raises only beyond
  the argument limit.
\<close>

theorem C1_no_error_on_well_shaped_blocks:
  "((\<forall>(k, c) \<in> set patterns.
        pattern_ids (instance_counts spec) k \<noteq> []
          \<longrightarrow> block_well_shaped c \<and> block_within limit c)
    \<and> (truthy (own_prop (JObj patterns) ''*'')
        \<longrightarrow> block_well_shaped (own_prop (JObj patterns) ''*'')
            \<and> block_within limit (own_prop (JObj patterns) ''*''))
    \<longrightarrow> (\<exists>out. resolveInstances_within limit patterns spec = Inr out
               \<and> resolveInstances patterns spec = Inr out))
   \<and> (\<not> nullish config \<and> apps_unrecognised (own_prop config ''apps'')
      \<longrightarrow> config_apps_within limit config = Inr [] \<and> config_apps config = Inr [])
   \<and> (\<not> nullish config \<and> files_unrecognised (own_prop config ''files'')
      \<longrightarrow> config_files_within limit config = Inr [] \<and> config_files config = Inr [])
   \<and> (\<not> nullish config \<and> \<not> datagen_recognised (datagen_declaration config)
      \<longrightarrow> config_datagen config = Inr None)
   \<and> (\<not> nullish config \<and> apps_unrecognised (own_prop config ''apps'')
        \<and> files_unrecognised (own_prop config ''files'')
        \<and> \<not> datagen_recognised (datagen_declaration config)
      \<longrightarrow> apply_block_within limit config existing = Inr existing
          \<and> apply_block config existing = Inr existing)
   \<and> (\<not> nullish config
      \<longrightarrow> (\<exists>d. config_datagen config = Inr d)
          \<and> (source_within limit (own_prop config ''files'')
               \<longrightarrow> (\<exists>refs. config_files_within limit config = Inr refs)))"
proof -
  have groups: "app_groups xs = Inr [] \<and> app_groups_within limit xs = Inr []"
    if "list_all (\<lambda>g. \<not> nullish g \<and> \<not> truthy (own_prop g ''source'')) xs" for xs
    using that by (induction xs) (simp_all add: app_group_def app_group_within_def)
  have apps: "config_apps_within limit config = Inr [] \<and> config_apps config = Inr []"
    if nn: "\<not> nullish config" and un: "apps_unrecognised (own_prop config ''apps'')"
  proof (cases "truthy (own_prop config ''apps'')")
    case False
    with nn show ?thesis by (simp add: config_apps_def config_apps_within_def)
  next
    case True
    show ?thesis
    proof (cases "own_prop config ''apps''")
      case (JArr xs)
      with un have f: "\<not> first_is_string xs"
        and l: "list_all (\<lambda>g. \<not> nullish g \<and> \<not> truthy (own_prop g ''source'')) xs"
        by (simp_all add: apps_unrecognised_def)
      from JArr nn f groups [OF l] show ?thesis
        by (simp add: config_apps_def config_apps_within_def)
    next
      case (JObj ps)
      with un have "\<not> truthy (own_prop (JObj ps) ''source'')"
        by (simp add: apps_unrecognised_def)
      with JObj nn show ?thesis
        by (simp add: config_apps_def config_apps_within_def app_group_def
              app_group_within_def del: own_prop.simps)
    qed (use nn in \<open>simp_all add: config_apps_def config_apps_within_def app_group_def
            app_group_within_def\<close>)
  qed
  have files: "config_files_within limit config = Inr [] \<and> config_files config = Inr []"
    if "\<not> nullish config" and "files_unrecognised (own_prop config ''files'')"
    using that
    by (auto simp: config_files_def config_files_within_def files_unrecognised_def Let_def
          truthy_not_nullish simp del: own_prop.simps)
  have dg: "config_datagen config = Inr None"
    if nn: "\<not> nullish config" and un: "\<not> datagen_recognised (datagen_declaration config)"
  proof (cases "truthy (own_prop config ''datagens'')")
    case True
    with nn un show ?thesis
      by (simp add: config_datagen_def datagen_declaration_def datagen_recognised_def js_or_def
            truthy_not_nullish del: own_prop.simps)
  next
    case False
    with nn un show ?thesis
      by (auto simp: config_datagen_def datagen_declaration_def datagen_recognised_def js_or_def
            truthy_not_nullish simp del: own_prop.simps)
  qed
  have block: "apply_block_within limit config existing = Inr existing
      \<and> apply_block config existing = Inr existing"
    if "\<not> nullish config" and "apps_unrecognised (own_prop config ''apps'')"
      and "files_unrecognised (own_prop config ''files'')"
      and "\<not> datagen_recognised (datagen_declaration config)"
    using apps [OF that(1,2)] files [OF that(1,3)] dg [OF that(1,4)]
    by (simp add: apply_block_within_def apply_block_def)
  show ?thesis
  proof (intro conjI impI)
    assume "(\<forall>(k, c) \<in> set patterns.
          pattern_ids (instance_counts spec) k \<noteq> []
            \<longrightarrow> block_well_shaped c \<and> block_within limit c)
      \<and> (truthy (own_prop (JObj patterns) ''*'')
          \<longrightarrow> block_well_shaped (own_prop (JObj patterns) ''*'')
              \<and> block_within limit (own_prop (JObj patterns) ''*''))"
    then show "\<exists>out. resolveInstances_within limit patterns spec = Inr out
                 \<and> resolveInstances patterns spec = Inr out"
      by (intro resolve_within_ok) blast+
  next
    assume a: "\<not> nullish config \<and> apps_unrecognised (own_prop config ''apps'')"
    with apps show "config_apps_within limit config = Inr []" by blast
    from a apps show "config_apps config = Inr []" by blast
  next
    assume a: "\<not> nullish config \<and> files_unrecognised (own_prop config ''files'')"
    with files show "config_files_within limit config = Inr []" by blast
    from a files show "config_files config = Inr []" by blast
  next
    assume "\<not> nullish config \<and> \<not> datagen_recognised (datagen_declaration config)"
    with dg show "config_datagen config = Inr None" by blast
  next
    assume a: "\<not> nullish config \<and> apps_unrecognised (own_prop config ''apps'')
          \<and> files_unrecognised (own_prop config ''files'')
          \<and> \<not> datagen_recognised (datagen_declaration config)"
    with block show "apply_block_within limit config existing = Inr existing" by blast
    from a block show "apply_block config existing = Inr existing" by blast
  next
    assume "\<not> nullish config"
    then show "\<exists>d. config_datagen config = Inr d" by (rule config_datagen_ok)
  next
    assume "\<not> nullish config" and "source_within limit (own_prop config ''files'')"
    then show "\<exists>refs. config_files_within limit config = Inr refs"
      by (rule config_files_within_ok)
  qed
qed

text \<open>
  C1 as stated fails: an apps object whose source is a single string, the scalar form that
  the files declaration accepts, makes the call throw.
\<close>

theorem C1_counterexample:
  "resolveInstances [(''idx1'', JObj [(''apps'', JObj [(''source'', JStr ''./apps/a'')])])] None
     = Inl TypeError"
  by code_simp

theorem C1_witness:
  "\<exists>out. resolveInstances_within 8
      [(''idx*'', JObj [(''apps'', JNum 5), (''files'', JStr ''x''), (''datagen'', JBool True)])]
      (Some \<lparr>instances = Some [(''idx'', 1)]\<rparr>) = Inr out
    \<and> resolveInstances
      [(''idx*'', JObj [(''apps'', JNum 5), (''files'', JStr ''x''), (''datagen'', JBool True)])]
      (Some \<lparr>instances = Some [(''idx'', 1)]\<rparr>) = Inr out"
proof -
  let ?P = "[(''idx*'', JObj [(''apps'', JNum 5), (''files'', JStr ''x''), (''datagen'', JBool True)])]"
  let ?S = "Some \<lparr>instances = Some [(''idx'', 1)]\<rparr>"
  have h1: "\<forall>(k, c) \<in> set ?P. pattern_ids (instance_counts ?S) k \<noteq> []
      \<longrightarrow> block_well_shaped c \<and> block_within 8 c"
    by code_simp
  have h2: "truthy (own_prop (JObj ?P) ''*'')
      \<longrightarrow> block_well_shaped (own_prop (JObj ?P) ''*'') \<and> block_within 8 (own_prop (JObj ?P) ''*'')"
    by code_simp
  from C1_no_error_on_well_shaped_blocks [of ?P ?S 8] have
    "(\<forall>(k, c) \<in> set ?P. pattern_ids (instance_counts ?S) k \<noteq> []
          \<longrightarrow> block_well_shaped c \<and> block_within 8 c)
     \<and> (truthy (own_prop (JObj ?P) ''*'')
          \<longrightarrow> block_well_shaped (own_prop (JObj ?P) ''*'')
              \<and> block_within 8 (own_prop (JObj ?P) ''*''))
     \<longrightarrow> (\<exists>out. resolveInstances_within 8 ?P ?S = Inr out \<and> resolveInstances ?P ?S = Inr out)"
    by (rule conjunct1)
  with h1 h2 show ?thesis by blast
qed

lemma not_index_star: "\<not> is_array_index ''*''"
  by (simp add: is_array_index_def is_digit_def)

lemma keys_iff: "name \<in> fst ` set out \<longleftrightarrow> map_of out name \<noteq> None"
  by (simp add: map_of_eq_None_iff)

lemma in_pattern_ids:
  "name \<in> set (pattern_ids counts k) \<longleftrightarrow>
     (k \<noteq> ''*'' \<and> CHR ''*'' \<in> set k \<and>
        (\<exists>n i. map_of counts (remove1 CHR ''*'' k) = Some n \<and> 0 < n \<and> 1 \<le> i \<and> int i \<le> n
           \<and> name = remove1 CHR ''*'' k @ string_of_nat i))
     \<or> (CHR ''*'' \<notin> set k \<and> name = k)"
proof (cases "k = ''*''")
  case True
  then show ?thesis by (simp add: pattern_ids_def)
next
  case ng: False
  show ?thesis
  proof (cases "CHR ''*'' \<in> set k")
    case False
    with ng show ?thesis by (auto simp: pattern_ids_def)
  next
    case True
    show ?thesis
    proof (cases "map_of counts (remove1 CHR ''*'' k)")
      case None
      with True ng show ?thesis by (simp add: pattern_ids_def)
    next
      case (Some n)
      have "\<And>i::nat. 1 \<le> i \<and> int i \<le> n \<longleftrightarrow> 0 < n \<and> 1 \<le> i \<and> int i \<le> n" by auto
      with Some True ng show ?thesis by (auto simp: pattern_ids_def set_role_names)
    qed
  qed
qed

lemma resolve_global_only: "resolveInstances [(''*'', g)] spec = Inr []"
proof -
  have "object_entries [(''*'', g)] = [(''*'', g)]"
    by (rule object_entries_plain) (simp add: not_index_star)
  then show ?thesis
    by (simp add: resolveInstances_def Let_def pattern_step_def)
qed

text \<open>
  C2 (amended). In the mapping \<open>resolveInstances\<close> returns, an identity is a key exactly when
  some key of the pattern map other than \<^verbatim>\<open>*\<close> contains a star, its role (the key with its
  first star removed) has a positive count \<open>n\<close>, and the identity is the role followed by a
  number from 1 to \<open>n\<close>; or some key that contains no star equals the identity. A pattern map
  with the global wildcard alone resolves to the empty mapping.
\<close>

theorem C2_identity_in_output_iff:
  assumes "resolveInstances patterns spec = Inr out"
  shows "(name \<in> fst ` set out \<longleftrightarrow>
            (\<exists>(k, c) \<in> set patterns.
                (k \<noteq> ''*'' \<and> CHR ''*'' \<in> set k \<and>
                   (\<exists>n i. map_of (instance_counts spec) (remove1 CHR ''*'' k) = Some n
                      \<and> 0 < n \<and> 1 \<le> i \<and> int i \<le> n
                      \<and> name = remove1 CHR ''*'' k @ string_of_nat i))
                \<or> (CHR ''*'' \<notin> set k \<and> name = k)))
         \<and> resolveInstances [(''*'', g)] spec = Inr []"
proof -
  have "name \<in> fst ` set out \<longleftrightarrow>
      (\<exists>(k, c) \<in> set patterns. name \<in> set (pattern_ids (instance_counts spec) k))"
    unfolding keys_iff resolve_Inr [OF assms, of name] by simp
  then show ?thesis
    unfolding in_pattern_ids using resolve_global_only [of g spec] by simp
qed

text \<open>
  C2 as stated fails: the key \<^verbatim>\<open>a*b\<close> does not end in a star, so the claim counts it as an
  exact pattern that names the identity \<^verbatim>\<open>a*b\<close>; the code treats it as a role wildcard for a
  role without a count and returns the empty mapping.
\<close>

theorem C2_counterexample:
  "resolveInstances [(''a*b'', JObj [])] None = Inr []"
  by code_simp

theorem C2_witness:
  "''idx2'' \<in> fst ` set [(''idx1'', empty_instance), (''idx2'', empty_instance), (''sh3'', empty_instance)]"
proof -
  let ?P = "[(''*'', JObj []), (''idx*'', JObj []), (''sh3'', JObj [])]"
  let ?S = "Some \<lparr>instances = Some [(''idx'', 2)]\<rparr>"
  have h: "resolveInstances ?P ?S
      = Inr [(''idx1'', empty_instance), (''idx2'', empty_instance), (''sh3'', empty_instance)]"
    by code_simp
  have s2: "string_of_nat 2 = ''2''" by code_simp
  have e: "\<exists>n i. map_of (instance_counts ?S) (remove1 CHR ''*'' ''idx*'') = Some n
        \<and> 0 < n \<and> 1 \<le> i \<and> int i \<le> n
        \<and> ''idx2'' = remove1 CHR ''*'' ''idx*'' @ string_of_nat i"
    by (rule exI [of _ 2], rule exI [of _ 2]) (simp add: instance_counts_def s2)
  have "\<exists>(k, c) \<in> set ?P.
      (k \<noteq> ''*'' \<and> CHR ''*'' \<in> set k \<and>
         (\<exists>n i. map_of (instance_counts ?S) (remove1 CHR ''*'' k) = Some n
            \<and> 0 < n \<and> 1 \<le> i \<and> int i \<le> n
            \<and> ''idx2'' = remove1 CHR ''*'' k @ string_of_nat i))
      \<or> (CHR ''*'' \<notin> set k \<and> ''idx2'' = k)"
    by (rule bexI [of _ "(''idx*'', JObj [])"]) (use e in simp_all)
  with C2_identity_in_output_iff [OF h, of "''idx2''"] show ?thesis by blast
qed

lemma keys_pattern_step:
  assumes "pattern_step counts (k, c) r = Inr r'"
  shows "fst ` set r' = fst ` set r \<union> set (pattern_ids counts k)"
proof -
  have "\<And>name. map_of r' name \<noteq> None \<longleftrightarrow>
      map_of r name \<noteq> None \<or> name \<in> set (pattern_ids counts k)"
    using pattern_step_Inr [OF assms] by simp
  then show ?thesis unfolding keys_iff [symmetric] by blast
qed

lemma remove1_star_suffix: "CHR ''*'' \<notin> set role \<Longrightarrow> remove1 CHR ''*'' (role @ ''*'') = role"
  by (simp add: remove1_append)

lemma pattern_ids_role:
  assumes "CHR ''*'' \<notin> set role" and "role \<noteq> []" and "map_of counts role = Some n"
  shows "pattern_ids counts (role @ ''*'') = role_names role n"
proof -
  from assms(2) have "role @ ''*'' \<noteq> ''*''" by simp
  with assms(1,3) show ?thesis
    by (simp add: pattern_ids_def remove1_star_suffix del: append_eq_Cons_conv)
qed

lemma role_loop_keys:
  "role_loop p c n i r = Inr r' \<Longrightarrow> \<forall>j\<ge>i. p @ string_of_nat j \<notin> fst ` set r \<Longrightarrow> 1 \<le> i \<Longrightarrow>
     map fst r' = map fst r @ map (\<lambda>j. p @ string_of_nat j) [i..<Suc (nat n)]"
proof (induction p c n i r rule: role_loop.induct)
  case (1 p c n i r)
  show ?case
  proof (cases "int i \<le> n")
    case False
    with "1.prems"(1) have "r' = r" by (simp add: role_loop.simps)
    moreover from False "1.prems"(3) have "[i..<Suc (nat n)] = []" by simp
    ultimately show ?thesis by simp
  next
    case True
    with "1.prems"(1) obtain r1 where t: "touch (p @ string_of_nat i) c r = Inr r1"
      and l: "role_loop p c n (Suc i) r1 = Inr r'"
      by (subst (asm) role_loop.simps) (auto split: sum.splits)
    from "1.prems"(2) have fresh: "p @ string_of_nat i \<notin> fst ` set r" by blast
    with touch_Inr(3) [OF t] have k1: "map fst r1 = map fst r @ [p @ string_of_nat i]" by simp
    have "\<forall>j\<ge>Suc i. p @ string_of_nat j \<notin> fst ` set r1"
    proof (intro allI impI)
      fix j assume j: "Suc i \<le> j"
      then have "p @ string_of_nat j \<notin> fst ` set r" using "1.prems"(2) by simp
      moreover have "p @ string_of_nat j \<noteq> p @ string_of_nat i"
        using j by (auto dest: string_of_nat_inj)
      moreover have "fst ` set r1 = insert (p @ string_of_nat i) (fst ` set r)"
        using k1 by (metis list.set_map set_append list.simps(15) set_simps(1) Un_insert_right sup_bot.right_neutral)
      ultimately show "p @ string_of_nat j \<notin> fst ` set r1" by simp
    qed
    from "1.IH" [OF True t l this]
    have "map fst r' = map fst r1 @ map (\<lambda>j. p @ string_of_nat j) [Suc i..<Suc (nat n)]"
      by simp
    moreover from True have "[i..<Suc (nat n)] = i # [Suc i..<Suc (nat n)]"
      by (intro upt_conv_Cons) simp
    ultimately show ?thesis using k1 by simp
  qed
qed

lemma resolve_single_role:
  assumes "CHR ''*'' \<notin> set role" and "role \<noteq> []"
    and "map_of (instance_counts spec) role = Some n"
    and "resolveInstances [(role @ ''*'', config)] spec = Inr out"
  shows "map fst out = role_names role n"
proof -
  from assms(2) have ng: "role @ ''*'' \<noteq> ''*''" by simp
  from assms(4) obtain r where
    fp: "first_pass (instance_counts spec) (object_entries [(role @ ''*'', config)]) [] = Inr r"
    and sp: "(if truthy (own_prop (JObj [(role @ ''*'', config)]) ''*'')
              then second_pass (own_prop (JObj [(role @ ''*'', config)]) ''*'') r
              else Inr r) = Inr out"
    by (rule resolve_unfold)
  from ng have g: "own_prop (JObj [(role @ ''*'', config)]) ''*'' = JUndefined"
    by (simp del: append_eq_Cons_conv)
  from sp have out: "out = r" unfolding g by simp
  have "length (object_entries [(role @ ''*'', config)]) = 1"
    by (simp add: object_entries_def)
  moreover have "set (object_entries [(role @ ''*'', config)]) = {(role @ ''*'', config)}"
    by (simp add: set_object_entries)
  ultimately have oe: "object_entries [(role @ ''*'', config)] = [(role @ ''*'', config)]"
    by (cases "object_entries [(role @ ''*'', config)]") auto
  from fp have ps: "pattern_step (instance_counts spec) (role @ ''*'', config) [] = Inr r"
    unfolding oe by (simp split: sum.splits)
  show ?thesis
  proof (cases "n = 0")
    case True
    with ps ng assms(1,3) show ?thesis
      by (simp add: pattern_step_def remove1_star_suffix out role_names_def
               del: append_eq_Cons_conv)
  next
    case False
    with ps ng assms(1,3) have "role_loop role config n 1 [] = Inr r"
      by (simp add: pattern_step_def remove1_star_suffix del: append_eq_Cons_conv)
    from role_loop_keys [OF this] show ?thesis by (simp add: out role_names_def)
  qed
qed

text \<open>
  C3 (amended). For a role-wildcard key \<^verbatim>\<open><role>*\<close> whose role is not empty and contains no
  star, and has count \<open>n\<close>, processing the key adds to the identities already in the map
  exactly \<^verbatim>\<open><role>1\<close> to \<^verbatim>\<open><role>n\<close>, and a pattern map holding this key alone resolves to a
  mapping whose keys are these identities, in this order.
\<close>

theorem C3_role_wildcard_expansion:
  assumes "CHR ''*'' \<notin> set role" and "role \<noteq> []"
    and "map_of (instance_counts spec) role = Some n"
  shows "(pattern_step (instance_counts spec) (role @ ''*'', config) resolved = Inr resolved'
           \<longrightarrow> fst ` set resolved'
               = fst ` set resolved \<union> {role @ string_of_nat i | i. 1 \<le> i \<and> int i \<le> n})
       \<and> (resolveInstances [(role @ ''*'', config)] spec = Inr out
           \<longrightarrow> map fst out = map (\<lambda>i. role @ string_of_nat i) [1..<Suc (nat n)])"
proof (intro conjI impI)
  assume "pattern_step (instance_counts spec) (role @ ''*'', config) resolved = Inr resolved'"
  from keys_pattern_step [OF this]
  show "fst ` set resolved'
      = fst ` set resolved \<union> {role @ string_of_nat i | i. 1 \<le> i \<and> int i \<le> n}"
    unfolding pattern_ids_role [OF assms] set_role_names .
next
  assume "resolveInstances [(role @ ''*'', config)] spec = Inr out"
  from resolve_single_role [OF assms this]
  show "map fst out = map (\<lambda>i. role @ string_of_nat i) [1..<Suc (nat n)]"
    by (simp add: role_names_def)
qed

text \<open>
  C3 as stated fails: the role \<^verbatim>\<open>*b\<close> has count 2, and the key \<^verbatim>\<open>*b*\<close> is that role followed
  by a star, yet the code removes the first star, looks up the count of \<^verbatim>\<open>b*\<close>, finds none,
  and produces no identity.
\<close>

theorem C3_counterexample:
  "resolveInstances [(''*b*'', JObj [])] (Some \<lparr>instances = Some [(''*b'', 2)]\<rparr>) = Inr []"
  by code_simp

theorem C3_witness:
  "map fst [(''sh1'', \<lparr>apps = [\<lparr>source = JStr ''./apps/sh-base'', destination = JStr ''apps''\<rparr>],
                       files = [], datagen = None\<rparr>),
            (''sh2'', \<lparr>apps = [\<lparr>source = JStr ''./apps/sh-base'', destination = JStr ''apps''\<rparr>],
                       files = [], datagen = None\<rparr>)]
     = map (\<lambda>i. ''sh'' @ string_of_nat i) [1..<Suc (nat 2)]"
proof -
  let ?C = "JObj [(''apps'', JArr [JStr ''./apps/sh-base''])]"
  let ?S = "Some \<lparr>instances = Some [(''sh'', 2)]\<rparr>"
  have h1: "CHR ''*'' \<notin> set ''sh''" by simp
  have h2: "''sh'' \<noteq> []" by simp
  have h3: "map_of (instance_counts ?S) ''sh'' = Some 2" by (simp add: instance_counts_def)
  have h4: "resolveInstances [(''sh'' @ ''*'', ?C)] ?S
     = Inr [(''sh1'', \<lparr>apps = [\<lparr>source = JStr ''./apps/sh-base'', destination = JStr ''apps''\<rparr>],
                       files = [], datagen = None\<rparr>),
            (''sh2'', \<lparr>apps = [\<lparr>source = JStr ''./apps/sh-base'', destination = JStr ''apps''\<rparr>],
                       files = [], datagen = None\<rparr>)]"
    by code_simp
  from C3_role_wildcard_expansion [OF h1 h2 h3, of ?C] h4 show ?thesis by blast
qed

text \<open>
  C6 (amended). A key other than \<^verbatim>\<open>*\<close> that contains no star is an exact pattern: processing
  it leaves the map's keys as they are when the key is among them and appends the key,
  verbatim, when it is not. A key other than \<^verbatim>\<open>*\<close> that contains a star anywhere is expanded
  as a role wildcard whose role is the key with its first star removed: it adds the role
  followed by 1 to \<open>n\<close> when the role has count \<open>n\<close>, and nothing when the role has no count.
\<close>

theorem C6_pattern_kinds:
  assumes "pattern_step counts (k, config) resolved = Inr resolved'" and "k \<noteq> ''*''"
  shows "(CHR ''*'' \<notin> set k \<longrightarrow>
            map fst resolved' =
              (if k \<in> fst ` set resolved then map fst resolved else map fst resolved @ [k]))
       \<and> (CHR ''*'' \<in> set k \<longrightarrow>
            fst ` set resolved' = fst ` set resolved \<union>
              (case map_of counts (remove1 CHR ''*'' k) of
                 None \<Rightarrow> {}
               | Some n \<Rightarrow> {remove1 CHR ''*'' k @ string_of_nat i | i. 1 \<le> i \<and> int i \<le> n}))"
proof (intro conjI impI)
  assume "CHR ''*'' \<notin> set k"
  with assms have "touch k config resolved = Inr resolved'" by (simp add: pattern_step_def)
  from touch_Inr(3) [OF this]
  show "map fst resolved' =
      (if k \<in> fst ` set resolved then map fst resolved else map fst resolved @ [k])" .
next
  assume star: "CHR ''*'' \<in> set k"
  have "set (pattern_ids counts k) =
      (case map_of counts (remove1 CHR ''*'' k) of
         None \<Rightarrow> {}
       | Some n \<Rightarrow> {remove1 CHR ''*'' k @ string_of_nat i | i. 1 \<le> i \<and> int i \<le> n})"
    using star assms(2) by (simp add: pattern_ids_def set_role_names split: option.splits)
  with keys_pattern_step [OF assms(1)]
  show "fst ` set resolved' = fst ` set resolved \<union>
      (case map_of counts (remove1 CHR ''*'' k) of
         None \<Rightarrow> {}
       | Some n \<Rightarrow> {remove1 CHR ''*'' k @ string_of_nat i | i. 1 \<le> i \<and> int i \<le> n})"
    by simp
qed

text \<open>
  C6 as stated fails: the key \<^verbatim>\<open>a*b\<close> does not end in a star, yet with a count of 2 for
  \<^verbatim>\<open>ab\<close> it is expanded to \<^verbatim>\<open>ab1\<close> and \<^verbatim>\<open>ab2\<close>, and no instance \<^verbatim>\<open>a*b\<close> is created.
\<close>

theorem C6_counterexample:
  "resolveInstances [(''a*b'', JObj [])] (Some \<lparr>instances = Some [(''ab'', 2)]\<rparr>)
     = Inr [(''ab1'', empty_instance), (''ab2'', empty_instance)]"
  by code_simp

theorem C6_witness:
  "map fst [(''idx1'', empty_instance), (''sh3'', empty_instance)]
     = (if ''sh3'' \<in> fst ` set [(''idx1'', empty_instance)]
        then map fst [(''idx1'', empty_instance)]
        else map fst [(''idx1'', empty_instance)] @ [''sh3''])"
proof -
  have h1: "pattern_step [] (''sh3'', JObj []) [(''idx1'', empty_instance)]
      = Inr [(''idx1'', empty_instance), (''sh3'', empty_instance)]"
    by code_simp
  have h2: "''sh3'' \<noteq> ''*''" by simp
  have h3: "CHR ''*'' \<notin> set ''sh3''" by simp
  from C6_pattern_kinds [OF h1 h2] h3 show ?thesis by blast
qed

lemma resolve_inst:
  assumes "resolveInstances patterns spec = Inr out" and "map_of out name = Some inst"
  shows "inst = fold block_effect
           (matching_blocks (instance_counts spec) (object_entries patterns) name
            @ (if truthy (own_prop (JObj patterns) ''*'') then [own_prop (JObj patterns) ''*'']
               else []))
           empty_instance"
  using resolve_Inr [OF assms(1), of name] assms(2) by (simp split: if_splits)

text \<open>
  C4 (amended). For every identity in the mapping \<open>resolveInstances\<close> returns, its apps and its
  files are the concatenation of the normalised entries of every matching pattern: the
  role-wildcard and exact patterns in the order in which \<^verbatim>\<open>Object.entries\<close> enumerates the
  pattern map (keys that are array indices first, in ascending numeric order, then the
  other keys in declaration order), then the entries of a truthy global block. Nothing is
  deduplicated. When no key is an array index the enumeration order is the declaration
  order.
\<close>

theorem C4_accumulation_order:
  assumes "resolveInstances patterns spec = Inr out" and "map_of out name = Some inst"
  shows "apps inst =
           concat (map apps_of
             (matching_blocks (instance_counts spec) (object_entries patterns) name))
           @ (if truthy (own_prop (JObj patterns) ''*'')
              then apps_of (own_prop (JObj patterns) ''*'') else [])
       \<and> files inst =
           concat (map files_of
             (matching_blocks (instance_counts spec) (object_entries patterns) name))
           @ (if truthy (own_prop (JObj patterns) ''*'')
              then files_of (own_prop (JObj patterns) ''*'') else [])
       \<and> ((\<forall>k \<in> fst ` set patterns. \<not> is_array_index k) \<longrightarrow> object_entries patterns = patterns)"
proof -
  note i = resolve_inst [OF assms]
  have a: "apps inst =
           concat (map apps_of
             (matching_blocks (instance_counts spec) (object_entries patterns) name))
           @ (if truthy (own_prop (JObj patterns) ''*'')
              then apps_of (own_prop (JObj patterns) ''*'') else [])"
    unfolding i fold_block_effect_apps by (simp add: empty_instance_def del: own_prop.simps)
  have f: "files inst =
           concat (map files_of
             (matching_blocks (instance_counts spec) (object_entries patterns) name))
           @ (if truthy (own_prop (JObj patterns) ''*'')
              then files_of (own_prop (JObj patterns) ''*'') else [])"
    unfolding i fold_block_effect_files by (simp add: empty_instance_def del: own_prop.simps)
  from a f object_entries_plain [of patterns] show ?thesis by blast
qed

text \<open>
  C4 as stated fails: the pattern map declares \<^verbatim>\<open>1*\<close> before \<^verbatim>\<open>11\<close>, with a count of 1 for
  the role \<^verbatim>\<open>1\<close>, so both select the identity \<^verbatim>\<open>11\<close>. \<^verbatim>\<open>Object.entries\<close> lists the array index
  \<^verbatim>\<open>11\<close> first, and the instance holds the app of \<^verbatim>\<open>11\<close> before the app of \<^verbatim>\<open>1*\<close>, the
  reverse of the declaration order.
\<close>

theorem C4_counterexample:
  "resolveInstances
     [(''1*'', JObj [(''apps'', JArr [JStr ''./apps/a''])]),
      (''11'', JObj [(''apps'', JArr [JStr ''./apps/b''])])]
     (Some \<lparr>instances = Some [(''1'', 1)]\<rparr>)
   = Inr [(''11'', \<lparr>apps = [\<lparr>source = JStr ''./apps/b'', destination = JStr ''apps''\<rparr>,
                            \<lparr>source = JStr ''./apps/a'', destination = JStr ''apps''\<rparr>],
                    files = [], datagen = None\<rparr>)]
   \<and> concat (map apps_of (matching_blocks [(''1'', 1)]
        [(''1*'', JObj [(''apps'', JArr [JStr ''./apps/a''])]),
         (''11'', JObj [(''apps'', JArr [JStr ''./apps/b''])])] ''11''))
     = [\<lparr>source = JStr ''./apps/a'', destination = JStr ''apps''\<rparr>,
        \<lparr>source = JStr ''./apps/b'', destination = JStr ''apps''\<rparr>]"
  by code_simp

theorem C4_witness:
  "apps \<lparr>apps = [\<lparr>source = JStr ''./apps/idx'', destination = JStr ''manager-apps''\<rparr>,
                 \<lparr>source = JStr ''./apps/idx'', destination = JStr ''apps''\<rparr>,
                 \<lparr>source = JStr ''./apps/all'', destination = JStr ''apps''\<rparr>],
         files = [\<lparr>source = JStr ''./f.conf'', destination = JStr ''system/local''\<rparr>],
         datagen = None\<rparr>
   = concat (map apps_of
       (matching_blocks (instance_counts (Some \<lparr>instances = Some [(''idx'', 1)]\<rparr>))
          (object_entries
            [(''*'', JObj [(''apps'', JArr [JStr ''./apps/all''])]),
             (''idx*'', JObj [(''apps'', JObj [(''source'', JArr [JStr ''./apps/idx'']),
                                                (''destination'', JStr ''manager-apps'')])]),
             (''idx1'', JObj [(''apps'', JArr [JStr ''./apps/idx'']),
                              (''files'', JObj [(''source'', JStr ''./f.conf'')])])])
          ''idx1''))
     @ (if truthy (own_prop (JObj
            [(''*'', JObj [(''apps'', JArr [JStr ''./apps/all''])]),
             (''idx*'', JObj [(''apps'', JObj [(''source'', JArr [JStr ''./apps/idx'']),
                                                (''destination'', JStr ''manager-apps'')])]),
             (''idx1'', JObj [(''apps'', JArr [JStr ''./apps/idx'']),
                              (''files'', JObj [(''source'', JStr ''./f.conf'')])])]) ''*'')
        then apps_of (own_prop (JObj
            [(''*'', JObj [(''apps'', JArr [JStr ''./apps/all''])]),
             (''idx*'', JObj [(''apps'', JObj [(''source'', JArr [JStr ''./apps/idx'']),
                                                (''destination'', JStr ''manager-apps'')])]),
             (''idx1'', JObj [(''apps'', JArr [JStr ''./apps/idx'']),
                              (''files'', JObj [(''source'', JStr ''./f.conf'')])])]) ''*'')
        else [])"
proof -
  let ?P = "[(''*'', JObj [(''apps'', JArr [JStr ''./apps/all''])]),
             (''idx*'', JObj [(''apps'', JObj [(''source'', JArr [JStr ''./apps/idx'']),
                                                (''destination'', JStr ''manager-apps'')])]),
             (''idx1'', JObj [(''apps'', JArr [JStr ''./apps/idx'']),
                              (''files'', JObj [(''source'', JStr ''./f.conf'')])])]"
  let ?S = "Some \<lparr>instances = Some [(''idx'', 1)]\<rparr>"
  let ?I = "\<lparr>apps = [\<lparr>source = JStr ''./apps/idx'', destination = JStr ''manager-apps''\<rparr>,
                 \<lparr>source = JStr ''./apps/idx'', destination = JStr ''apps''\<rparr>,
                 \<lparr>source = JStr ''./apps/all'', destination = JStr ''apps''\<rparr>],
         files = [\<lparr>source = JStr ''./f.conf'', destination = JStr ''system/local''\<rparr>],
         datagen = None\<rparr>"
  have h1: "resolveInstances ?P ?S = Inr [(''idx1'', ?I)]" by code_simp
  have h2: "map_of [(''idx1'', ?I)] ''idx1'' = Some ?I" by simp
  from C4_accumulation_order [OF h1 h2] show ?thesis by (rule conjunct1)
qed




lemma apply_block_cong:
  assumes "config_apps c = config_apps c'" and "config_files c = config_files c'"
    and "config_datagen c = config_datagen c'"
  shows "apply_block c = apply_block c'"
  by (rule ext) (simp only: apply_block_def assms)

lemma legacy_block_same:
  "same_entry (k, JObj (p1 @ (''apps'', JArr (map JStr ss)) # p2))
     (k, JObj (p1 @ (''apps'',
        JObj [(''source'', JArr (map JStr ss)), (''destination'', JStr ''apps'')]) # p2))"
proof -
  let ?L = "JObj (p1 @ (''apps'', JArr (map JStr ss)) # p2)"
  let ?O = "JObj (p1 @ (''apps'',
        JObj [(''source'', JArr (map JStr ss)), (''destination'', JStr ''apps'')]) # p2)"
  have f: "own_prop ?L ''files'' = own_prop ?O ''files''"
    by (rule other_prop_same) simp
  have d1: "own_prop ?L ''datagens'' = own_prop ?O ''datagens''"
    by (rule other_prop_same) simp
  have d2: "own_prop ?L ''datagen'' = own_prop ?O ''datagen''"
    by (rule other_prop_same) simp
  have cf: "config_files ?L = config_files ?O"
    unfolding config_files_def get_prop_def using f by (simp del: own_prop.simps)
  have cd: "config_datagen ?L = config_datagen ?O"
    unfolding config_datagen_def get_prop_def using d1 d2 by (simp del: own_prop.simps)
  have "apply_block ?L = apply_block ?O"
    using legacy_apps_equiv [of p1 ss p2] cf cd by (rule apply_block_cong)
  then show ?thesis by (simp add: same_entry_def)
qed

text \<open>
  C7. For every list of strings, the apps declaration given as the array of the strings
  and the declaration \<^verbatim>\<open>{source: [...], destination: "apps"}\<close> normalise to the same sequence,
  one \<^verbatim>\<open>{source: s, destination: "apps"}\<close> per string in order, and two pattern maps that
  differ only in that one block declares its apps in the one shape and the other in the
  other resolve alike.
\<close>

theorem C7_legacy_apps_equivalence:
  "config_apps (JObj [(''apps'', JArr (map JStr ss))])
     = Inr (map (\<lambda>s. \<lparr>source = JStr s, destination = JStr ''apps''\<rparr>) ss)
   \<and> config_apps (JObj [(''apps'',
        JObj [(''source'', JArr (map JStr ss)), (''destination'', JStr ''apps'')])])
     = Inr (map (\<lambda>s. \<lparr>source = JStr s, destination = JStr ''apps''\<rparr>) ss)
   \<and> resolveInstances (pre @ (k, JObj (p1 @ (''apps'', JArr (map JStr ss)) # p2)) # post) spec
     = resolveInstances (pre @ (k, JObj (p1 @ (''apps'',
          JObj [(''source'', JArr (map JStr ss)), (''destination'', JStr ''apps'')]) # p2))
        # post) spec"
proof (intro conjI)
  show "config_apps (JObj [(''apps'', JArr (map JStr ss))])
     = Inr (map (\<lambda>s. \<lparr>source = JStr s, destination = JStr ''apps''\<rparr>) ss)"
    by (cases ss) (simp_all add: config_apps_def comp_def)
  show "config_apps (JObj [(''apps'',
        JObj [(''source'', JArr (map JStr ss)), (''destination'', JStr ''apps'')])])
     = Inr (map (\<lambda>s. \<lparr>source = JStr s, destination = JStr ''apps''\<rparr>) ss)"
    by (simp add: config_apps_def app_group_def map_refs_def js_or_def comp_def)
  show "resolveInstances (pre @ (k, JObj (p1 @ (''apps'', JArr (map JStr ss)) # p2)) # post) spec
     = resolveInstances (pre @ (k, JObj (p1 @ (''apps'',
          JObj [(''source'', JArr (map JStr ss)), (''destination'', JStr ''apps'')]) # p2))
        # post) spec"
    by (intro resolveInstances_cong same_entry_at legacy_block_same)
qed

theorem C7_witness:
  "resolveInstances
     [(''sh*'', JObj [(''apps'', JArr (map JStr [''./a'', ''./b'']))])]
     (Some \<lparr>instances = Some [(''sh'', 1)]\<rparr>)
   = resolveInstances
     [(''sh*'', JObj [(''apps'',
         JObj [(''source'', JArr (map JStr [''./a'', ''./b''])), (''destination'', JStr ''apps'')])])]
     (Some \<lparr>instances = Some [(''sh'', 1)]\<rparr>)"
  using C7_legacy_apps_equivalence
    [of "[''./a'', ''./b'']" "[]" "''sh*''" "[]" "[]" "[]" "Some \<lparr>instances = Some [(''sh'', 1)]\<rparr>"]
  by simp

text \<open>
  C8 (amended). The datagen declaration of a block is its \<^verbatim>\<open>datagens\<close> when that is truthy
  and its \<^verbatim>\<open>datagen\<close> otherwise. A block that is applied leaves the datagen slot
  unchanged exactly when that declaration is falsy, or is not an array and has no truthy
  \<^verbatim>\<open>source\<close>. Every array, whatever its elements, overwrites the slot with itself as source
  and \<^verbatim>\<open>null\<close> as destination, and every other value with a truthy \<^verbatim>\<open>source\<close>, whatever the type
  of the source, overwrites it with that source and the declaration's destination.
\<close>

theorem C8_unrecognised_datagen_keeps_slot:
  assumes "apply_block config existing = Inr existing'"
  shows "(\<not> datagen_recognised (datagen_declaration config)
            \<longrightarrow> datagen existing' = datagen existing)
       \<and> (datagen_recognised (datagen_declaration config)
            \<longrightarrow> datagen existing' =
                Some (if isArray (datagen_declaration config)
                      then \<lparr>dg_source = datagen_declaration config, dg_destination = JNull\<rparr>
                      else \<lparr>dg_source = own_prop (datagen_declaration config) ''source'',
                            dg_destination =
                              own_prop (datagen_declaration config) ''destination''\<rparr>))"
proof -
  from assms have b: "block_well_shaped config" and e: "existing' = block_effect config existing"
    by (simp_all add: apply_block_eq split: if_splits)
  from b have nn: "\<not> nullish config" by (rule block_well_shaped_not_nullish)
  show ?thesis
    unfolding e block_effect_sel datagen_of_def config_datagen_eq [OF nn] declared_datagen_def
    by simp
qed

text \<open>
  C8 as stated fails: a datagen object whose source is a single string is neither a
  sequence of strings nor an object whose source is a sequence of strings, yet it
  overwrites the slot.
\<close>

theorem C8_counterexample:
  "resolveInstances
     [(''uf1'', JObj [(''datagen'', JObj [(''source'', JStr ''./datagens/gen.py'')])])] None
   = Inr [(''uf1'', \<lparr>apps = [], files = [],
             datagen = Some \<lparr>dg_source = JStr ''./datagens/gen.py'',
                              dg_destination = JUndefined\<rparr>\<rparr>)]"
  by code_simp

theorem C8_witness:
  "datagen \<lparr>apps = [], files = [\<lparr>source = JStr ''./f.conf'', destination = JStr ''system/local''\<rparr>],
            datagen = Some \<lparr>dg_source = JArr [JStr ''./d''], dg_destination = JNull\<rparr>\<rparr>
   = datagen \<lparr>apps = [], files = [],
            datagen = Some \<lparr>dg_source = JArr [JStr ''./d''], dg_destination = JNull\<rparr>\<rparr>"
proof -
  let ?C = "JObj [(''files'', JObj [(''source'', JStr ''./f.conf'')]),
                  (''datagens'', JStr ''TBD''), (''datagen'', JArr [JStr ''x''])]"
  let ?E = "\<lparr>apps = [], files = [],
            datagen = Some \<lparr>dg_source = JArr [JStr ''./d''], dg_destination = JNull\<rparr>\<rparr>"
  let ?E' = "\<lparr>apps = [], files = [\<lparr>source = JStr ''./f.conf'', destination = JStr ''system/local''\<rparr>],
            datagen = Some \<lparr>dg_source = JArr [JStr ''./d''], dg_destination = JNull\<rparr>\<rparr>"
  have h1: "apply_block ?C ?E = Inr ?E'" by code_simp
  have h2: "\<not> datagen_recognised (datagen_declaration ?C)" by code_simp
  from C8_unrecognised_datagen_keeps_slot [OF h1] have
    "\<not> datagen_recognised (datagen_declaration ?C) \<longrightarrow> datagen ?E' = datagen ?E"
    by (rule conjunct1)
  from this h2 show ?thesis by (rule mp)
qed

lemma app_groups_append:
  "app_groups (ys @ zs) =
     (case app_groups ys of
        Inl e \<Rightarrow> Inl e
      | Inr a \<Rightarrow> (case app_groups zs of Inl e \<Rightarrow> Inl e | Inr b \<Rightarrow> Inr (a @ b)))"
  by (induction ys) (auto split: sum.splits)

lemma app_groups_skip:
  assumes "\<not> nullish g" and "\<not> truthy (own_prop g ''source'')"
  shows "app_groups (ys @ g # zs) = app_groups (ys @ zs)"
proof -
  from assms have "app_group g = Inr []" by (simp add: app_group_def)
  then have "app_groups (g # zs) = app_groups zs" by (simp split: sum.splits)
  then show ?thesis by (simp only: app_groups_append)
qed

text \<open>
  C10 (amended). For an apps declaration that is an array, the first element alone decides
  the reading. When it is a string, every element, whatever its type, becomes
  \<^verbatim>\<open>{source: element, destination: "apps"}\<close>. When it is not, every element is read as a
  co-located-role object, and an element that is neither null nor undefined and has no
  truthy \<^verbatim>\<open>source\<close> contributes nothing. An empty array contributes nothing.
\<close>

theorem C10_apps_array_dispatch:
  assumes "\<not> nullish config" and "own_prop config ''apps'' = JArr xs"
  shows "(first_is_string xs \<longrightarrow>
            config_apps config
              = Inr (map (\<lambda>app. \<lparr>source = app, destination = JStr ''apps''\<rparr>) xs))
       \<and> (\<not> first_is_string xs \<longrightarrow> config_apps config = app_groups xs)
       \<and> (xs = [] \<longrightarrow> config_apps config = Inr [])
       \<and> (\<not> nullish g \<and> \<not> truthy (own_prop g ''source'')
            \<longrightarrow> app_groups (ys @ g # zs) = app_groups (ys @ zs))"
  using assms app_groups_skip [of g ys zs]
  by (auto simp: config_apps_def simp del: own_prop.simps)

text \<open>
  C10 as stated fails: in an array that does not start with a string, the element \<^verbatim>\<open>null\<close>
  has no truthy source, yet it does not contribute nothing: reading its \<^verbatim>\<open>source\<close> throws.
\<close>

theorem C10_counterexample:
  "resolveInstances
     [(''lm1'', JObj [(''apps'',
         JArr [JObj [(''source'', JArr [JStr ''./apps/uf-base'']),
                     (''destination'', JStr ''deployment-apps'')],
               JNull])])] None
   = Inl TypeError"
  by code_simp

theorem C10_witness:
  "config_apps (JObj [(''apps'', JArr [JStr ''./a'', JNum 7, JNull])])
     = Inr (map (\<lambda>app. \<lparr>source = app, destination = JStr ''apps''\<rparr>)
             [JStr ''./a'', JNum 7, JNull])"
proof -
  let ?C = "JObj [(''apps'', JArr [JStr ''./a'', JNum 7, JNull])]"
  have h1: "\<not> nullish ?C" by simp
  have h2: "own_prop ?C ''apps'' = JArr [JStr ''./a'', JNum 7, JNull]" by simp
  have h3: "first_is_string [JStr ''./a'', JNum 7, JNull]" by simp
  from C10_apps_array_dispatch [OF h1 h2] have
    "first_is_string [JStr ''./a'', JNum 7, JNull] \<longrightarrow>
       config_apps ?C = Inr (map (\<lambda>app. \<lparr>source = app, destination = JStr ''apps''\<rparr>)
             [JStr ''./a'', JNum 7, JNull])"
    by (rule conjunct1)
  from this h3 show ?thesis by (rule mp)
qed

lemma loadManifest_File:
  assumes "fs_lookup h (path_join h courseDir ''manifest.json'') = Some (File content)"
  shows "loadManifest h courseDir =
     (case JSON_parse h (clean_content content) of
        None \<Rightarrow> Inl InvalidJSON
      | Some m \<Rightarrow>
          if nullish m then Inl TypeError
          else if truthy (own_prop m ''instances'') then Inr m
          else Inl MissingInstances)"
  using assms by (simp add: loadManifest_def Let_def get_prop_def split: option.splits)

text \<open>
  C9 (amended). \<open>loadManifest\<close> throws the manifest-not-found error exactly when the path of
  \<^verbatim>\<open>manifest.json\<close> in the given directory does not exist. When the path is a readable file,
  it throws the invalid-JSON error exactly when the comment-stripped text fails to parse,
  the missing-instances error exactly when the text parses to a value other than null
  whose \<^verbatim>\<open>instances\<close> is falsy (absent, null, false, 0 or the empty string), and returns the
  parsed manifest exactly when its \<^verbatim>\<open>instances\<close> is truthy; for a text that does not parse to
  null these are the only outcomes.
\<close>

theorem C9_loadManifest_outcomes:
  "((\<exists>d. loadManifest h courseDir = Inl (ManifestNotFound d))
      \<longleftrightarrow> fs_lookup h (path_join h courseDir ''manifest.json'') = None)
   \<and> (fs_lookup h (path_join h courseDir ''manifest.json'') = Some (File content) \<longrightarrow>
        (loadManifest h courseDir = Inl InvalidJSON
           \<longleftrightarrow> JSON_parse h (clean_content content) = None)
      \<and> (loadManifest h courseDir = Inl MissingInstances
           \<longleftrightarrow> (\<exists>m. JSON_parse h (clean_content content) = Some m \<and> \<not> nullish m
                  \<and> \<not> truthy (own_prop m ''instances'')))
      \<and> (loadManifest h courseDir = Inr manifest
           \<longleftrightarrow> JSON_parse h (clean_content content) = Some manifest
               \<and> truthy (own_prop manifest ''instances''))
      \<and> ((\<forall>m. JSON_parse h (clean_content content) = Some m \<longrightarrow> \<not> nullish m)
           \<longrightarrow> loadManifest h courseDir = Inl InvalidJSON
               \<or> loadManifest h courseDir = Inl MissingInstances
               \<or> (\<exists>m. loadManifest h courseDir = Inr m)))"
proof (intro conjI impI)
  show "(\<exists>d. loadManifest h courseDir = Inl (ManifestNotFound d))
      \<longleftrightarrow> fs_lookup h (path_join h courseDir ''manifest.json'') = None"
    by (auto simp: loadManifest_def Let_def get_prop_def
             split: option.splits fs_node.splits sum.splits if_splits)
next
  assume f: "fs_lookup h (path_join h courseDir ''manifest.json'') = Some (File content)"
  note l = loadManifest_File [OF f]
  show "loadManifest h courseDir = Inl InvalidJSON
           \<longleftrightarrow> JSON_parse h (clean_content content) = None"
    unfolding l by (auto split: option.splits)
  show "loadManifest h courseDir = Inl MissingInstances
           \<longleftrightarrow> (\<exists>m. JSON_parse h (clean_content content) = Some m \<and> \<not> nullish m
                  \<and> \<not> truthy (own_prop m ''instances''))"
    unfolding l by (auto split: option.splits)
  show "loadManifest h courseDir = Inr manifest
           \<longleftrightarrow> JSON_parse h (clean_content content) = Some manifest
               \<and> truthy (own_prop manifest ''instances'')"
    unfolding l by (cases manifest) (auto split: option.splits)
  show "loadManifest h courseDir = Inl InvalidJSON
               \<or> loadManifest h courseDir = Inl MissingInstances
               \<or> (\<exists>m. loadManifest h courseDir = Inr m)"
    if "\<forall>m. JSON_parse h (clean_content content) = Some m \<longrightarrow> \<not> nullish m"
    using that unfolding l by (auto split: option.splits)
qed

text \<open>
  C9 as stated fails: a manifest whose text is \<^verbatim>\<open>null\<close> exists and parses, and \<open>loadManifest\<close>
  throws a TypeError, which is neither of the two error kinds.
\<close>

theorem C9_counterexample:
  "loadManifest sample_host ''broken'' = Inl TypeError"
  by code_simp

theorem C9_witness:
  "loadManifest sample_host ''course'' = Inr (JObj [(''instances'', JObj [])])"
proof -
  have h1: "fs_lookup sample_host (path_join sample_host ''course'' ''manifest.json'')
      = Some (File sample_manifest_text)"
    by code_simp
  have h2: "JSON_parse sample_host (clean_content sample_manifest_text)
      = Some (JObj [(''instances'', JObj [])])"
    by code_simp
  have h3: "truthy (own_prop (JObj [(''instances'', JObj [])]) ''instances'')" by simp
  from C9_loadManifest_outcomes
    [of sample_host "''course''" sample_manifest_text "JObj [(''instances'', JObj [])]"]
  have "fs_lookup sample_host (path_join sample_host ''course'' ''manifest.json'')
      = Some (File sample_manifest_text) \<longrightarrow>
        (loadManifest sample_host ''course'' = Inl InvalidJSON
           \<longleftrightarrow> JSON_parse sample_host (clean_content sample_manifest_text) = None)
      \<and> (loadManifest sample_host ''course'' = Inl MissingInstances
           \<longleftrightarrow> (\<exists>m. JSON_parse sample_host (clean_content sample_manifest_text) = Some m
                  \<and> \<not> nullish m \<and> \<not> truthy (own_prop m ''instances'')))
      \<and> (loadManifest sample_host ''course'' = Inr (JObj [(''instances'', JObj [])])
           \<longleftrightarrow> JSON_parse sample_host (clean_content sample_manifest_text)
                 = Some (JObj [(''instances'', JObj [])])
               \<and> truthy (own_prop (JObj [(''instances'', JObj [])]) ''instances''))
      \<and> ((\<forall>m. JSON_parse sample_host (clean_content sample_manifest_text) = Some m
                \<longrightarrow> \<not> nullish m)
           \<longrightarrow> loadManifest sample_host ''course'' = Inl InvalidJSON
               \<or> loadManifest sample_host ''course'' = Inl MissingInstances
               \<or> (\<exists>m. loadManifest sample_host ''course'' = Inr m))"
    by (rule conjunct2)
  with h1 h2 h3 show ?thesis by blast
qed

end
